theory Spec2Isabelle
  imports Main "HOL-Library.Word"
begin

section \<open>Data model\<close>

text \<open>
  The buffer pool of \<^verbatim>\<open>src/buffer/buffer_pool_manager.cpp\<close> and its replacer
  \<^verbatim>\<open>src/buffer/lru_replacer.cpp\<close>.

  \<^item> \<^verbatim>\<open>page_id_t\<close> is a signed 32-bit integer; \<^verbatim>\<open>INVALID_PAGE_ID\<close> is -1. Page ids and
    pin counts are modelled as \<open>int\<close>; signed overflow (undefined in C++) would need
    \<open>2^31\<close> pins or allocations and is not modelled.
  \<^item> \<^verbatim>\<open>frame_id_t\<close> values are indices into \<^verbatim>\<open>pages_\<close>. Every frame id that is ever
    stored comes from the constructor's loop \<^verbatim>\<open>static_cast<int>(i)\<close>, \<open>i < pool_size\<close>; the
    initial value -1 of the local \<^verbatim>\<open>frameId\<close> is overwritten on every path before it is
    read. Frame ids are therefore modelled as \<open>nat\<close>.
  \<^item> A \<^verbatim>\<open>Page*\<close> result is \<^verbatim>\<open>&pages_[frameId]\<close> or \<^verbatim>\<open>nullptr\<close>: modelled as
    \<open>Some frameId\<close> or \<open>None\<close>.
  \<^item> The latches only serialise the operations; every operation is modelled as one
    atomic state transformer.
\<close>

type_synonym page_id_t = int
type_synonym frame_id_t = nat
type_synonym page_data = "8 word list"

text \<open>
  Modelled from the spec: the constants of the configuration header (not among the
  sources). The sentinel \<^verbatim>\<open>INVALID_PAGE_ID\<close> is -1; a page has 4096 bytes.
\<close>

definition INVALID_PAGE_ID :: page_id_t where
  "INVALID_PAGE_ID = - 1"

definition PAGE_SIZE :: nat where
  "PAGE_SIZE = 4096"

text \<open>
  Modelled from the spec: class \<^verbatim>\<open>Page\<close> (its header is not among the sources). A frame is
  a page-size byte buffer plus the metadata \<open>page_id\<close>, \<open>pin_count\<close>, \<open>is_dirty\<close>; a
  frame that holds no page has \<open>page_id = INVALID_PAGE_ID\<close>, \<open>pin_count = 0\<close>, is clean and
  zeroed. \<^verbatim>\<open>ResetMemory\<close> zeroes the buffer.
\<close>

record page =
  data :: page_data
  page_id :: page_id_t
  pin_count :: int
  is_dirty :: bool

definition zero_data :: page_data where
  "zero_data = replicate PAGE_SIZE 0"

definition ResetMemory :: "page \<Rightarrow> page" where
  "ResetMemory p = p\<lparr>data := zero_data\<rparr>"

definition new_Page :: page where
  "new_Page = \<lparr>data = zero_data, page_id = INVALID_PAGE_ID, pin_count = 0, is_dirty = False\<rparr>"

subsection \<open>Disk manager\<close>

text \<open>
  Modelled from the spec: the disk manager (class \<^verbatim>\<open>DiskManager\<close> is not among the
  sources). It is a synchronous block device: \<^verbatim>\<open>ReadPage\<close> returns the page-size content
  stored under a page id, \<^verbatim>\<open>WritePage\<close> stores it, \<^verbatim>\<open>AllocatePage\<close> returns a fresh page
  id, \<^verbatim>\<open>DeallocatePage\<close> has no effect on the stored content. Every call is recorded in
  \<open>calls\<close>, oldest first; a read or write records the frame whose buffer
  (\<^verbatim>\<open>pages_[frameId].GetData()\<close>) is passed.
\<close>

datatype disk_call =
    CallRead page_id_t frame_id_t
  | CallWrite page_id_t frame_id_t page_data
  | CallAllocate page_id_t
  | CallDeallocate page_id_t

record disk_manager =
  disk_pages :: "page_id_t \<Rightarrow> page_data"
  next_page_id :: page_id_t
  calls :: "disk_call list"

definition ReadPage :: "disk_manager \<Rightarrow> page_id_t \<Rightarrow> frame_id_t \<Rightarrow> page_data \<times> disk_manager" where
  "ReadPage d pid fid = (disk_pages d pid, d\<lparr>calls := calls d @ [CallRead pid fid]\<rparr>)"

definition WritePage :: "disk_manager \<Rightarrow> page_id_t \<Rightarrow> frame_id_t \<Rightarrow> page_data \<Rightarrow> disk_manager" where
  "WritePage d pid fid bytes =
     d\<lparr>disk_pages := (disk_pages d)(pid := bytes), calls := calls d @ [CallWrite pid fid bytes]\<rparr>"

definition AllocatePage :: "disk_manager \<Rightarrow> page_id_t \<times> disk_manager" where
  "AllocatePage d =
     (next_page_id d,
      d\<lparr>next_page_id := next_page_id d + 1, calls := calls d @ [CallAllocate (next_page_id d)]\<rparr>)"

definition DeallocatePage :: "disk_manager \<Rightarrow> page_id_t \<Rightarrow> disk_manager" where
  "DeallocatePage d pid = d\<lparr>calls := calls d @ [CallDeallocate pid]\<rparr>"

definition empty_disk :: disk_manager where
  "empty_disk = \<lparr>disk_pages = (\<lambda>_. zero_data), next_page_id = 0, calls = []\<rparr>"

section \<open>LRU replacer\<close>

text \<open>
  \<^verbatim>\<open>LRUReplacer::list\<close> is a \<^verbatim>\<open>std::list<frame_id_t>\<close>. \<^verbatim>\<open>Victim\<close> takes the back element,
  \<^verbatim>\<open>Unpin\<close> inserts at the front unless \<^verbatim>\<open>std::find\<close> finds the frame, \<^verbatim>\<open>Pin\<close> erases the
  first occurrence that \<^verbatim>\<open>std::find\<close> returns.
\<close>

type_synonym LRUReplacer = "frame_id_t list"

definition new_LRUReplacer :: "nat \<Rightarrow> LRUReplacer" where
  "new_LRUReplacer num_pages = []"

definition Victim :: "LRUReplacer \<Rightarrow> frame_id_t option \<times> LRUReplacer" where
  "Victim l = (if l = [] then (None, l) else (Some (last l), butlast l))"

definition Pin :: "frame_id_t \<Rightarrow> LRUReplacer \<Rightarrow> LRUReplacer" where
  "Pin frame_id l = (if frame_id \<in> set l then remove1 frame_id l else l)"

definition Unpin :: "frame_id_t \<Rightarrow> LRUReplacer \<Rightarrow> LRUReplacer" where
  "Unpin frame_id l = (if frame_id \<in> set l then l else frame_id # l)"

definition Size :: "LRUReplacer \<Rightarrow> nat" where
  "Size l = length l"

section \<open>Buffer pool manager\<close>

record bpm =
  pool_size :: nat
  pages :: "page list"
  page_table :: "page_id_t \<rightharpoonup> frame_id_t"
  free_list :: "frame_id_t list"
  replacer :: LRUReplacer
  disk :: disk_manager

text \<open>Assignment to fields of \<^verbatim>\<open>pages_[frameId]\<close>.\<close>

definition upd_page :: "frame_id_t \<Rightarrow> (page \<Rightarrow> page) \<Rightarrow> bpm \<Rightarrow> bpm" where
  "upd_page frameId f s = s\<lparr>pages := (pages s)[frameId := f (pages s ! frameId)]\<rparr>"

text \<open>\<^verbatim>\<open>std::unordered_map::insert\<close> keeps an existing entry for the key.\<close>

definition pt_insert :: "page_id_t \<Rightarrow> frame_id_t \<Rightarrow> (page_id_t \<rightharpoonup> frame_id_t) \<Rightarrow> (page_id_t \<rightharpoonup> frame_id_t)" where
  "pt_insert pid fid pt = (case pt pid of None \<Rightarrow> pt(pid \<mapsto> fid) | Some _ \<Rightarrow> pt)"

text \<open>The constructor: every frame is a fresh \<^verbatim>\<open>Page\<close> and is on the free list.\<close>

definition BufferPoolManager :: "nat \<Rightarrow> disk_manager \<Rightarrow> bpm" where
  "BufferPoolManager n d =
     \<lparr>pool_size = n, pages = replicate n new_Page, page_table = Map.empty,
      free_list = [0..<n], replacer = new_LRUReplacer n, disk = d\<rparr>"

definition FlushPageImpl :: "bpm \<Rightarrow> page_id_t \<Rightarrow> bool \<times> bpm" where
  "FlushPageImpl s pid =
     (case page_table s pid of
        None \<Rightarrow> (False, s)
      | Some fid \<Rightarrow>
          let FlushPg = pages s ! fid in
          if is_dirty FlushPg then
            (True,
             upd_page fid (\<lambda>p. p\<lparr>is_dirty := False\<rparr>)
               (s\<lparr>disk := WritePage (disk s) (page_id FlushPg) fid (data FlushPg)\<rparr>))
          else (True, s))"

text \<open>
  Lines 51-67 of \<^verbatim>\<open>FetchPageImpl\<close>, repeated as lines 124-140 of \<^verbatim>\<open>NewPageImpl\<close>: take the
  front of the free list, else a victim of the replacer; a dirty victim is flushed
  through \<^verbatim>\<open>FlushPageImpl\<close> on its page id and its flag cleared; the victim's page id is
  erased from the page table. \<open>None\<close> is the path that returns \<^verbatim>\<open>nullptr\<close>.
\<close>

definition find_replacement :: "bpm \<Rightarrow> (frame_id_t \<times> bpm) option" where
  "find_replacement s =
     (case free_list s of
        frameId # rest \<Rightarrow> Some (frameId, s\<lparr>free_list := rest\<rparr>)
      | [] \<Rightarrow>
         (case Victim (replacer s) of
            (None, _) \<Rightarrow> None
          | (Some frameId, l) \<Rightarrow>
              let s1 = s\<lparr>replacer := l\<rparr>;
                  s2 = (if is_dirty (pages s1 ! frameId)
                        then upd_page frameId (\<lambda>p. p\<lparr>is_dirty := False\<rparr>)
                               (snd (FlushPageImpl s1 (page_id (pages s1 ! frameId))))
                        else s1);
                  s3 = s2\<lparr>page_table := (page_table s2)(page_id (pages s2 ! frameId) := None)\<rparr>
              in Some (frameId, s3)))"

definition FetchPageImpl :: "bpm \<Rightarrow> page_id_t \<Rightarrow> frame_id_t option \<times> bpm" where
  "FetchPageImpl s pid =
     (case page_table s pid of
        Some frameId \<Rightarrow>
          let s1 = s\<lparr>replacer := Pin frameId (replacer s)\<rparr>;
              s2 = upd_page frameId (\<lambda>p. p\<lparr>pin_count := pin_count p + 1\<rparr>) s1
          in (Some frameId, s2)
      | None \<Rightarrow>
         (case find_replacement s of
            None \<Rightarrow> (None, s)
          | Some (frameId, s1) \<Rightarrow>
              let s2 = upd_page frameId ResetMemory s1;
                  (bytes, d) = ReadPage (disk s2) pid frameId;
                  s3 = upd_page frameId (\<lambda>p. p\<lparr>data := bytes\<rparr>) (s2\<lparr>disk := d\<rparr>);
                  s4 = upd_page frameId (\<lambda>p. p\<lparr>page_id := pid\<rparr>) s3;
                  s5 = s4\<lparr>page_table := pt_insert pid frameId (page_table s4)\<rparr>;
                  s6 = upd_page frameId (\<lambda>p. p\<lparr>pin_count := 1\<rparr>) s5;
                  s7 = s6\<lparr>replacer := Pin frameId (replacer s6)\<rparr>
              in (Some frameId, s7)))"

definition UnpinPageImpl :: "bpm \<Rightarrow> page_id_t \<Rightarrow> bool \<Rightarrow> bool \<times> bpm" where
  "UnpinPageImpl s pid dirty =
     (case page_table s pid of
        None \<Rightarrow> (False, s)
      | Some fid \<Rightarrow>
          if pin_count (pages s ! fid) \<le> 0 then (False, s)
          else
            let s1 = upd_page fid (\<lambda>p. p\<lparr>pin_count := pin_count p - 1\<rparr>) s;
                s2 = upd_page fid (\<lambda>p. p\<lparr>is_dirty := dirty\<rparr>) s1;
                s3 = (if pin_count (pages s2 ! fid) = 0
                      then s2\<lparr>replacer := Unpin fid (replacer s2)\<rparr> else s2)
            in (True, s3))"

text \<open>
  \<^verbatim>\<open>NewPageImpl(page_id_t *page_id)\<close>: the out parameter is passed in as \<open>out\<close> and
  returned as the second component of the result.
\<close>

definition NewPageImpl :: "bpm \<Rightarrow> page_id_t \<Rightarrow> frame_id_t option \<times> page_id_t \<times> bpm" where
  "NewPageImpl s out =
     (case find_replacement s of
        None \<Rightarrow> (None, out, s)
      | Some (frameId, s1) \<Rightarrow>
          let (pid, d) = AllocatePage (disk s1);
              s2 = s1\<lparr>disk := d\<rparr>;
              s3 = upd_page frameId (\<lambda>p. p\<lparr>page_id := pid\<rparr>) s2;
              s4 = s3\<lparr>page_table := pt_insert pid frameId (page_table s3)\<rparr>;
              s5 = upd_page frameId ResetMemory s4;
              s6 = s5\<lparr>replacer := Pin frameId (replacer s5)\<rparr>;
              s7 = upd_page frameId (\<lambda>p. p\<lparr>pin_count := 1\<rparr>) s6;
              s8 = upd_page frameId (\<lambda>p. p\<lparr>is_dirty := False\<rparr>) s7
          in (Some frameId, pid, s8))"

definition DeletePageImpl :: "bpm \<Rightarrow> page_id_t \<Rightarrow> bool \<times> bpm" where
  "DeletePageImpl s pid =
     (case page_table s pid of
        None \<Rightarrow> (True, s\<lparr>disk := DeallocatePage (disk s) pid\<rparr>)
      | Some framdeId \<Rightarrow>
          if pin_count (pages s ! framdeId) > 0 then (False, s)
          else
            let s1 = s\<lparr>free_list := free_list s @ [framdeId]\<rparr>;
                s2 = s1\<lparr>page_table := (page_table s1)(page_id (pages s1 ! framdeId) := None)\<rparr>;
                s3 = upd_page framdeId ResetMemory s2;
                s4 = upd_page framdeId (\<lambda>p. p\<lparr>page_id := INVALID_PAGE_ID\<rparr>) s3;
                s5 = upd_page framdeId (\<lambda>p. p\<lparr>is_dirty := False\<rparr>) s4;
                s6 = upd_page framdeId (\<lambda>p. p\<lparr>pin_count := 0\<rparr>) s5
            in (False, s6))"

text \<open>The loop of \<^verbatim>\<open>FlushAllPagesImpl\<close> over the frame indices still to visit.\<close>

fun FlushAll_loop :: "frame_id_t list \<Rightarrow> bpm \<Rightarrow> bpm" where
  "FlushAll_loop [] s = s"
| "FlushAll_loop (i # is) s = FlushAll_loop is (snd (FlushPageImpl s (page_id (pages s ! i))))"

definition FlushAllPagesImpl :: "bpm \<Rightarrow> bpm" where
  "FlushAllPagesImpl s = FlushAll_loop [0..<pool_size s] s"

subsection \<open>Sequences of operations\<close>

text \<open>
  The public operations of the manager, and a client's write into the buffer of a frame
  (through \<^verbatim>\<open>Page::GetData\<close>), which changes the bytes only.
\<close>

datatype bpm_op =
    FetchPage page_id_t
  | NewPage
  | UnpinPage page_id_t bool
  | FlushPage page_id_t
  | DeletePage page_id_t
  | FlushAllPages
  | ClientWrite frame_id_t page_data

fun step :: "bpm \<Rightarrow> bpm_op \<Rightarrow> bpm" where
  "step s (FetchPage pid) = snd (FetchPageImpl s pid)"
| "step s NewPage = snd (snd (NewPageImpl s INVALID_PAGE_ID))"
| "step s (UnpinPage pid dirty) = snd (UnpinPageImpl s pid dirty)"
| "step s (FlushPage pid) = snd (FlushPageImpl s pid)"
| "step s (DeletePage pid) = snd (DeletePageImpl s pid)"
| "step s FlushAllPages = FlushAllPagesImpl s"
| "step s (ClientWrite fid bytes) =
     (if fid < pool_size s then upd_page fid (\<lambda>p. p\<lparr>data := bytes\<rparr>) s else s)"

definition run :: "bpm \<Rightarrow> bpm_op list \<Rightarrow> bpm" where
  "run s ops = foldl step s ops"

text \<open>
  The reachable states are the states \<open>run (BufferPoolManager n d) ops\<close>: any pool size,
  any disk, any sequence of operations.
\<close>



section \<open>The invariant of the manager\<close>

text \<open>
  The properties below hold in every reachable state (\<open>inv_reached\<close> below). Frame ids
  stay inside the frame array, so every \<^verbatim>\<open>pages_[frameId]\<close> of the source is an access in range.
\<close>

definition frames_in_range :: "bpm \<Rightarrow> bool" where
  "frames_in_range s \<longleftrightarrow>
     length (pages s) = pool_size s \<and>
     (\<forall>f \<in> set (free_list s). f < pool_size s) \<and>
     (\<forall>f \<in> set (replacer s). f < pool_size s) \<and>
     (\<forall>p f. page_table s p = Some f \<longrightarrow> f < pool_size s)"

definition table_consistent :: "bpm \<Rightarrow> bool" where
  "table_consistent s \<longleftrightarrow> (\<forall>p f. page_table s p = Some f \<longrightarrow> page_id (pages s ! f) = p)"

definition free_ok :: "bpm \<Rightarrow> bool" where
  "free_ok s \<longleftrightarrow>
     distinct (free_list s) \<and>
     (\<forall>f \<in> set (free_list s).
        (\<forall>p. page_table s p \<noteq> Some f) \<and> \<not> is_dirty (pages s ! f) \<and> pin_count (pages s ! f) = 0)"

definition replacer_ok :: "bpm \<Rightarrow> bool" where
  "replacer_ok s \<longleftrightarrow>
     distinct (replacer s) \<and>
     (\<forall>f \<in> set (replacer s).
        pin_count (pages s ! f) = 0 \<and>
        (f \<in> set (free_list s) \<or> page_table s (page_id (pages s ! f)) = Some f))"

definition pins_ok :: "bpm \<Rightarrow> bool" where
  "pins_ok s \<longleftrightarrow>
     (\<forall>f < pool_size s.
        0 \<le> pin_count (pages s ! f) \<and>
        (pin_count (pages s ! f) = 0 \<longrightarrow> f \<in> set (free_list s) \<or> f \<in> set (replacer s)))"

definition bpm_inv :: "bpm \<Rightarrow> bool" where
  "bpm_inv s \<longleftrightarrow> frames_in_range s \<and> table_consistent s \<and> free_ok s \<and> replacer_ok s \<and> pins_ok s"


text \<open>
  The state between choosing the replacement frame \<open>f\<close> and installing the new page in
  it: \<open>f\<close> is on no list but possibly the replacer, no page-table entry maps to it, and
  it is clean.
\<close>

definition detached :: "frame_id_t \<Rightarrow> bpm \<Rightarrow> bool" where
  "detached f s \<longleftrightarrow>
     frames_in_range s \<and> table_consistent s \<and> free_ok s \<and>
     f < pool_size s \<and> f \<notin> set (free_list s) \<and> (\<forall>p. page_table s p \<noteq> Some f) \<and>
     \<not> is_dirty (pages s ! f) \<and> distinct (replacer s) \<and>
     (\<forall>g \<in> set (replacer s). g \<noteq> f \<longrightarrow>
        pin_count (pages s ! g) = 0 \<and>
        (g \<in> set (free_list s) \<or> page_table s (page_id (pages s ! g)) = Some g)) \<and>
     (\<forall>g < pool_size s.
        0 \<le> pin_count (pages s ! g) \<and>
        (g \<noteq> f \<longrightarrow> pin_count (pages s ! g) = 0 \<longrightarrow> g \<in> set (free_list s) \<or> g \<in> set (replacer s)))"


section \<open>Auxiliary definitions for the statements\<close>

text \<open>The number of \<^verbatim>\<open>WritePage\<close> calls the disk manager has received.\<close>

fun is_write :: "disk_call \<Rightarrow> bool" where
  "is_write (CallWrite _ _ _) = True"
| "is_write _ = False"

definition num_writes :: "bpm \<Rightarrow> nat" where
  "num_writes s = length (filter is_write (calls (disk s)))"


text \<open>
  States reached by short runs on an empty disk, used as concrete inputs:
  a pool of two frames after \<^verbatim>\<open>NewPage\<close> (page 0 in frame 0) and \<^verbatim>\<open>UnpinPage(0, false)\<close>;
  a pool of one frame whose page 0 was unpinned dirty; the same after page 0 was fetched
  again; a pool of one frame whose only frame is pinned.
\<close>

definition demo_unpinned :: bpm where
  "demo_unpinned = run (BufferPoolManager 2 empty_disk) [NewPage, UnpinPage 0 False]"


definition demo_dirty_unpinned :: bpm where
  "demo_dirty_unpinned = run (BufferPoolManager 1 empty_disk) [NewPage, UnpinPage 0 True]"

definition demo_dirty :: bpm where
  "demo_dirty = run (BufferPoolManager 1 empty_disk) [NewPage, UnpinPage 0 True, FetchPage 0]"


definition demo_exhausted :: bpm where
  "demo_exhausted = run (BufferPoolManager 1 empty_disk) [NewPage]"

subsection \<open>Sequences of replacer calls\<close>

datatype replacer_op = CallVictim | CallPin frame_id_t | CallUnpin frame_id_t

text \<open>One call on the replacer: the list after it, and what \<^verbatim>\<open>Victim\<close> returned.\<close>

fun replacer_step :: "LRUReplacer \<Rightarrow> replacer_op \<Rightarrow> frame_id_t option list \<times> LRUReplacer" where
  "replacer_step l CallVictim = ([fst (Victim l)], snd (Victim l))"
| "replacer_step l (CallPin f) = ([], Pin f l)"
| "replacer_step l (CallUnpin f) = ([], Unpin f l)"

fun replacer_run :: "LRUReplacer \<Rightarrow> replacer_op list \<Rightarrow> frame_id_t option list \<times> LRUReplacer" where
  "replacer_run l [] = ([], l)"
| "replacer_run l (c # cs) =
     (let (out, l') = replacer_step l c; (outs, l'') = replacer_run l' cs in (out @ outs, l''))"


subsection \<open>The replacer of the specification\<close>

text \<open>
  The replacer as the specification words it: the tracked frames in the order in which
  they entered the tracked set, oldest first. \<^verbatim>\<open>Unpin\<close> of a tracked frame changes
  nothing, \<^verbatim>\<open>Unpin\<close> of an untracked frame puts it last (most recently evictable),
  \<^verbatim>\<open>Pin\<close> removes the frame, \<^verbatim>\<open>Victim\<close> removes and returns the first (least recently
  unpinned) frame.
\<close>

definition spec_Victim :: "frame_id_t list \<Rightarrow> frame_id_t option \<times> frame_id_t list" where
  "spec_Victim q = (case q of [] \<Rightarrow> (None, []) | f # rest \<Rightarrow> (Some f, rest))"

definition spec_Pin :: "frame_id_t \<Rightarrow> frame_id_t list \<Rightarrow> frame_id_t list" where
  "spec_Pin f q = filter (\<lambda>g. g \<noteq> f) q"

definition spec_Unpin :: "frame_id_t \<Rightarrow> frame_id_t list \<Rightarrow> frame_id_t list" where
  "spec_Unpin f q = (if f \<in> set q then q else q @ [f])"

fun spec_step :: "frame_id_t list \<Rightarrow> replacer_op \<Rightarrow> frame_id_t option list \<times> frame_id_t list" where
  "spec_step q CallVictim = ([fst (spec_Victim q)], snd (spec_Victim q))"
| "spec_step q (CallPin f) = ([], spec_Pin f q)"
| "spec_step q (CallUnpin f) = ([], spec_Unpin f q)"

fun spec_run :: "frame_id_t list \<Rightarrow> replacer_op list \<Rightarrow> frame_id_t option list \<times> frame_id_t list" where
  "spec_run q [] = ([], q)"
| "spec_run q (c # cs) =
     (let (out, q') = spec_step q c; (outs, q'') = spec_run q' cs in (out @ outs, q''))"


subsection \<open>Write-back\<close>

text \<open>
  \<open>write_back_ok s s' ws\<close>: the disk calls made between \<open>s\<close> and \<open>s'\<close> are \<open>ws\<close>, no
  write occurs twice among them, and every write passes the page id and the bytes of a
  frame that was dirty in \<open>s\<close> and is clean in \<open>s'\<close>. \<open>only_cleaned s s'\<close>: frames differ
  between \<open>s\<close> and \<open>s'\<close> only by a dirty flag that was cleared.
\<close>

definition write_back_ok :: "bpm \<Rightarrow> bpm \<Rightarrow> disk_call list \<Rightarrow> bool" where
  "write_back_ok s s' ws \<longleftrightarrow>
     calls (disk s') = calls (disk s) @ ws \<and>
     distinct (filter is_write ws) \<and>
     (\<forall>pid fid bytes. CallWrite pid fid bytes \<in> set ws \<longrightarrow>
        fid < pool_size s \<and> is_dirty (pages s ! fid) \<and>
        page_id (pages s ! fid) = pid \<and> data (pages s ! fid) = bytes \<and>
        \<not> is_dirty (pages s' ! fid))"

definition only_cleaned :: "bpm \<Rightarrow> bpm \<Rightarrow> bool" where
  "only_cleaned s s' \<longleftrightarrow>
     pool_size s' = pool_size s \<and>
     (\<forall>g < pool_size s. pages s' ! g = pages s ! g \<or>
        (is_dirty (pages s ! g) \<and> pages s' ! g = (pages s ! g)\<lparr>is_dirty := False\<rparr>))"


section \<open>Basic facts\<close>

lemma upd_page_fields [simp]:
  "pool_size (upd_page f g s) = pool_size s"
  "page_table (upd_page f g s) = page_table s"
  "free_list (upd_page f g s) = free_list s"
  "replacer (upd_page f g s) = replacer s"
  "disk (upd_page f g s) = disk s"
  "pages (upd_page f g s) = (pages s)[f := g (pages s ! f)]"
  by (simp_all add: upd_page_def)

lemma find_replacement_None:
  "find_replacement s = None \<longleftrightarrow> free_list s = [] \<and> replacer s = []"
  by (simp add: find_replacement_def Victim_def Let_def split: list.splits)

lemma NewPageImpl_None: "fst (NewPageImpl s out) = None \<longleftrightarrow> find_replacement s = None"
  by (simp add: NewPageImpl_def Let_def split: option.splits prod.splits)

lemmas eval_defs =
  run_def BufferPoolManager_def NewPageImpl_def FetchPageImpl_def UnpinPageImpl_def
  DeletePageImpl_def FlushPageImpl_def FlushAllPagesImpl_def find_replacement_def
  AllocatePage_def ReadPage_def WritePage_def DeallocatePage_def empty_disk_def Let_def
  pt_insert_def Pin_def Unpin_def Victim_def new_LRUReplacer_def new_Page_def
  ResetMemory_def INVALID_PAGE_ID_def

section \<open>Preservation of the invariant\<close>

lemmas inv_defs = bpm_inv_def frames_in_range_def table_consistent_def free_ok_def replacer_ok_def pins_ok_def

lemma inv_init: "bpm_inv (BufferPoolManager n d)"
  by (simp add: inv_defs BufferPoolManager_def new_LRUReplacer_def new_Page_def)

lemma clear_clean: "\<not> is_dirty pg \<Longrightarrow> pg\<lparr>is_dirty := False\<rparr> = pg"
  by (cases pg) simp

lemma FlushPageImpl_Some:
  "page_table s pid = Some f \<Longrightarrow>
   FlushPageImpl s pid =
     (True, s\<lparr>pages := (pages s)[f := (pages s ! f)\<lparr>is_dirty := False\<rparr>],
             disk := (if is_dirty (pages s ! f)
                      then WritePage (disk s) (page_id (pages s ! f)) f (data (pages s ! f))
                      else disk s)\<rparr>)"
  by (simp add: FlushPageImpl_def Let_def upd_page_def clear_clean)

lemma FlushPageImpl_None: "page_table s pid = None \<Longrightarrow> FlushPageImpl s pid = (False, s)"
  by (simp add: FlushPageImpl_def)

lemma inv_Flush: "bpm_inv s \<Longrightarrow> bpm_inv (snd (FlushPageImpl s pid))"
proof (cases "page_table s pid")
  case None
  assume "bpm_inv s" then show ?thesis using None by (simp add: FlushPageImpl_None)
next
  case (Some f)
  assume inv: "bpm_inv s"
  then have lt: "f < length (pages s)" using Some by (auto simp: inv_defs)
  show ?thesis using inv lt
    by (auto simp add: FlushPageImpl_Some[OF Some] inv_defs nth_list_update)
qed


lemma FlushAll_loop_inv: "bpm_inv s \<Longrightarrow> bpm_inv (FlushAll_loop is s)"
  by (induction "is" arbitrary: s) (simp_all add: inv_Flush)

lemma inv_FlushAll: "bpm_inv s \<Longrightarrow> bpm_inv (FlushAllPagesImpl s)"
  by (simp add: FlushAllPagesImpl_def FlushAll_loop_inv)

lemma inv_ClientWrite:
  "bpm_inv s \<Longrightarrow> fid < pool_size s \<Longrightarrow> bpm_inv (upd_page fid (\<lambda>p. p\<lparr>data := bytes\<rparr>) s)"
  by (auto simp add: inv_defs nth_list_update)

lemma find_replacement_free:
  "free_list s = f # fs \<Longrightarrow> find_replacement s = Some (f, s\<lparr>free_list := fs\<rparr>)"
  by (simp add: find_replacement_def)

lemma find_replacement_victim:
  assumes "free_list s = []" "replacer s \<noteq> []" "f = last (replacer s)" "f < length (pages s)" "page_table s (page_id (pages s ! f)) = Some f"
  shows "find_replacement s =
     Some (f, s\<lparr>replacer := butlast (replacer s),
                pages := (pages s)[f := (pages s ! f)\<lparr>is_dirty := False\<rparr>],
                page_table := (page_table s)(page_id (pages s ! f) := None),
                disk := (if is_dirty (pages s ! f)
                         then WritePage (disk s) (page_id (pages s ! f)) f (data (pages s ! f))
                         else disk s)\<rparr>)"
  using assms
  by (simp add: find_replacement_def Victim_def Let_def FlushPageImpl_Some upd_page_def clear_clean)

lemma detached_free:
  assumes "bpm_inv s" "free_list s = f # fs"
  shows "detached f (s\<lparr>free_list := fs\<rparr>)"
  using assms by (auto simp add: inv_defs detached_def)


lemma inv_victim_facts:
  assumes "bpm_inv s" "free_list s = []" "replacer s \<noteq> []"
  shows "last (replacer s) < length (pages s)"
    and "page_table s (page_id (pages s ! last (replacer s))) = Some (last (replacer s))"
    and "pin_count (pages s ! last (replacer s)) = 0"
proof -
  have "last (replacer s) \<in> set (replacer s)" using assms(3) by simp
  then show "last (replacer s) < length (pages s)"
    and "page_table s (page_id (pages s ! last (replacer s))) = Some (last (replacer s))"
    and "pin_count (pages s ! last (replacer s)) = 0"
    using assms(1,2) by (auto simp: inv_defs)
qed

lemma distinct_last_butlast: "distinct xs \<Longrightarrow> xs \<noteq> [] \<Longrightarrow> last xs \<notin> set (butlast xs)"
  by (induction xs) (auto dest: in_set_butlastD)

lemma set_butlast_last: "xs \<noteq> [] \<Longrightarrow> set xs = insert (last xs) (set (butlast xs))"
  by (induction xs) auto


lemma detached_victim:
  assumes inv: "bpm_inv s" and fl: "free_list s = []" and ne: "replacer s \<noteq> []"
    and f: "f = last (replacer s)"
  shows "detached f (s\<lparr>replacer := butlast (replacer s),
                pages := (pages s)[f := (pages s ! f)\<lparr>is_dirty := False\<rparr>],
                page_table := (page_table s)(page_id (pages s ! f) := None),
                disk := d\<rparr>)" (is "detached f ?t")
proof -
  note vf = inv_victim_facts[OF inv fl ne, folded f]
  have len: "length (pages s) = pool_size s" using inv by (simp add: inv_defs)
  have nb: "f \<notin> set (butlast (replacer s))"
    using inv ne f by (simp add: inv_defs distinct_last_butlast)
  have sb: "set (replacer s) = insert f (set (butlast (replacer s)))"
    using ne f by (simp add: set_butlast_last)
  have d: "distinct (butlast (replacer s))" using inv by (simp add: inv_defs distinct_butlast)
  have tc: "\<And>p g. page_table s p = Some g \<Longrightarrow> page_id (pages s ! g) = p"
    using inv by (simp add: inv_defs)
  have ptlt: "\<And>p g. page_table s p = Some g \<Longrightarrow> g < pool_size s"
    using inv by (simp add: inv_defs)
  have rep: "\<And>g. g \<in> set (replacer s) \<Longrightarrow>
      g < pool_size s \<and> pin_count (pages s ! g) = 0 \<and> page_table s (page_id (pages s ! g)) = Some g"
    using inv fl by (simp add: inv_defs)
  have pins: "\<And>g. g < pool_size s \<Longrightarrow> 0 \<le> pin_count (pages s ! g) \<and>
      (pin_count (pages s ! g) = 0 \<longrightarrow> g \<in> set (replacer s))"
    using inv fl by (simp add: inv_defs)
  have pg: "\<And>g. g \<noteq> f \<Longrightarrow> pages ?t ! g = pages s ! g" by simp
  have pf: "pages ?t ! f = (pages s ! f)\<lparr>is_dirty := False\<rparr>" using vf(1) by simp
  have c1: "frames_in_range ?t"
    using len ptlt rep fl by (auto simp: frames_in_range_def dest: in_set_butlastD split: if_splits)
  have c2: "table_consistent ?t"
    unfolding table_consistent_def
  proof (intro allI impI)
    fix p g assume a: "page_table ?t p = Some g"
    then have b: "page_table s p = Some g" and pne: "p \<noteq> page_id (pages s ! f)"
      by (auto split: if_splits)
    show "page_id (pages ?t ! g) = p"
    proof (cases "g = f")
      case True then show ?thesis using tc[OF b] pf by simp
    next
      case False then show ?thesis using tc[OF b] pg by simp
    qed
  qed
  have c3: "free_ok ?t" using fl by (simp add: free_ok_def)
  have c4: "\<forall>p. page_table ?t p \<noteq> Some f"
  proof
    fix p show "page_table ?t p \<noteq> Some f"
      using tc[of p f] by auto
  qed
  have c5: "\<not> is_dirty (pages ?t ! f)" using pf by simp
  have c6: "\<forall>g \<in> set (replacer ?t). g \<noteq> f \<longrightarrow>
        pin_count (pages ?t ! g) = 0 \<and>
        (g \<in> set (free_list ?t) \<or> page_table ?t (page_id (pages ?t ! g)) = Some g)"
  proof (intro ballI impI)
    fix g assume g: "g \<in> set (replacer ?t)" and gf: "g \<noteq> f"
    then have gr: "g \<in> set (replacer s)" by (auto dest: in_set_butlastD)
    have "page_id (pages s ! g) \<noteq> page_id (pages s ! f)"
    proof
      assume e: "page_id (pages s ! g) = page_id (pages s ! f)"
      have "page_table s (page_id (pages s ! g)) = Some g" using rep[OF gr] by simp
      then show False using vf(2) e gf by simp
    qed
    then show "pin_count (pages ?t ! g) = 0 \<and>
        (g \<in> set (free_list ?t) \<or> page_table ?t (page_id (pages ?t ! g)) = Some g)"
      using rep[OF gr] pg[OF gf] by simp
  qed
  have c7: "\<forall>g < pool_size ?t.
        0 \<le> pin_count (pages ?t ! g) \<and>
        (g \<noteq> f \<longrightarrow> pin_count (pages ?t ! g) = 0 \<longrightarrow> g \<in> set (free_list ?t) \<or> g \<in> set (replacer ?t))"
  proof (intro allI impI)
    fix g assume "g < pool_size ?t"
    then have gl: "g < pool_size s" by simp
    show "0 \<le> pin_count (pages ?t ! g) \<and>
        (g \<noteq> f \<longrightarrow> pin_count (pages ?t ! g) = 0 \<longrightarrow> g \<in> set (free_list ?t) \<or> g \<in> set (replacer ?t))"
    proof (cases "g = f")
      case True then show ?thesis using pf vf(3) by simp
    next
      case False
      then show ?thesis using pins[OF gl] pg[OF False] sb by auto
    qed
  qed
  have c8: "f < pool_size ?t" using vf(1) len by simp
  have c9: "f \<notin> set (free_list ?t)" using fl by simp
  have c10: "distinct (replacer ?t)" using d by simp
  show ?thesis
    unfolding detached_def using c1 c2 c3 c4 c5 c6 c7 c8 c9 c10 by blast
qed


text \<open>Installing a page in a detached frame.\<close>

lemma inv_install:
  assumes det: "detached f s"
    and pg: "pin_count pg = 1" "page_id pg = pid" "\<not> is_dirty pg"
    and r: "r = Pin f (replacer s)"
  shows "bpm_inv (s\<lparr>pages := (pages s)[f := pg],
                    page_table := pt_insert pid f (page_table s),
                    replacer := r, disk := d\<rparr>)" (is "bpm_inv ?t")
proof -
  have len: "length (pages s) = pool_size s" and fl: "f < pool_size s"
    and fnf: "f \<notin> set (free_list s)" and fnp: "\<And>p. page_table s p \<noteq> Some f"
    and dr: "distinct (replacer s)"
    using det by (simp_all add: detached_def frames_in_range_def)
  have fir: "frames_in_range s" and tc: "table_consistent s" and fo: "free_ok s"
    using det by (simp_all add: detached_def)
  have rep: "\<And>g. g \<in> set (replacer s) \<Longrightarrow> g \<noteq> f \<Longrightarrow>
        pin_count (pages s ! g) = 0 \<and>
        (g \<in> set (free_list s) \<or> page_table s (page_id (pages s ! g)) = Some g)"
    using det by (simp add: detached_def)
  have pins: "\<And>g. g < pool_size s \<Longrightarrow>
        0 \<le> pin_count (pages s ! g) \<and>
        (g \<noteq> f \<longrightarrow> pin_count (pages s ! g) = 0 \<longrightarrow> g \<in> set (free_list s) \<or> g \<in> set (replacer s))"
    using det by (simp add: detached_def)
  have pgf: "pages ?t ! f = pg" using len fl by simp
  have pgg: "\<And>g. g \<noteq> f \<Longrightarrow> pages ?t ! g = pages s ! g" by simp
  have setr: "set r = set (replacer s) - {f}"
    using dr r by (auto simp: Pin_def)
  have dr': "distinct r" using dr r by (simp add: Pin_def)
  have pt_cases: "\<And>p g. page_table ?t p = Some g \<Longrightarrow>
      page_table s p = Some g \<or> (p = pid \<and> g = f \<and> page_table s pid = None)"
    by (auto simp: pt_insert_def split: option.splits if_splits)
  have pt_keep: "\<And>p g. page_table s p = Some g \<Longrightarrow> page_table ?t p = Some g"
    by (auto simp: pt_insert_def split: option.splits)
  have c1: "frames_in_range ?t"
    unfolding frames_in_range_def
  proof (intro conjI ballI allI impI)
    show "length (pages ?t) = pool_size ?t" using len by simp
    show "\<And>g. g \<in> set (free_list ?t) \<Longrightarrow> g < pool_size ?t"
      using fir by (simp add: frames_in_range_def)
    show "\<And>g. g \<in> set (replacer ?t) \<Longrightarrow> g < pool_size ?t"
      using fir setr by (simp add: frames_in_range_def)
    show "\<And>p g. page_table ?t p = Some g \<Longrightarrow> g < pool_size ?t"
      using pt_cases fir fl by (fastforce simp: frames_in_range_def)
  qed
  have c2: "table_consistent ?t"
    unfolding table_consistent_def
  proof (intro allI impI)
    fix p g assume a: "page_table ?t p = Some g"
    from pt_cases[OF a] show "page_id (pages ?t ! g) = p"
    proof
      assume b: "page_table s p = Some g"
      then have "g \<noteq> f" using fnp by auto
      then show ?thesis using tc b pgg by (simp add: table_consistent_def)
    next
      assume "p = pid \<and> g = f \<and> page_table s pid = None"
      then show ?thesis using pgf pg by simp
    qed
  qed
  have c3: "free_ok ?t"
    unfolding free_ok_def
  proof (intro conjI ballI allI)
    show "distinct (free_list ?t)" using fo by (simp add: free_ok_def)
  next
    fix g p assume g: "g \<in> set (free_list ?t)"
    then have gs: "g \<in> set (free_list s)" by simp
    then have gf: "g \<noteq> f" using fnf by auto
    show "page_table ?t p \<noteq> Some g"
    proof
      assume "page_table ?t p = Some g"
      from pt_cases[OF this] show False using fo gs gf by (auto simp: free_ok_def)
    qed
  next
    fix g assume g: "g \<in> set (free_list ?t)"
    then have gs: "g \<in> set (free_list s)" by simp
    then have gf: "g \<noteq> f" using fnf by auto
    show "\<not> is_dirty (pages ?t ! g)" using fo gs pgg[OF gf] by (simp add: free_ok_def)
    show "pin_count (pages ?t ! g) = 0" using fo gs pgg[OF gf] by (simp add: free_ok_def)
  qed
  have c4: "replacer_ok ?t"
    unfolding replacer_ok_def
  proof (intro conjI ballI)
    show "distinct (replacer ?t)" using dr' by simp
  next
    fix g assume "g \<in> set (replacer ?t)"
    then have gr: "g \<in> set (replacer s)" and gf: "g \<noteq> f" using setr by auto
    show "pin_count (pages ?t ! g) = 0" using rep[OF gr gf] pgg[OF gf] by simp
    from rep[OF gr gf] have "g \<in> set (free_list s) \<or> page_table s (page_id (pages s ! g)) = Some g"
      by simp
    then show "g \<in> set (free_list ?t) \<or> page_table ?t (page_id (pages ?t ! g)) = Some g"
    proof
      assume "g \<in> set (free_list s)" then show ?thesis by simp
    next
      assume "page_table s (page_id (pages s ! g)) = Some g"
      from pt_keep[OF this] show ?thesis using pgg[OF gf] by simp
    qed
  qed
  have c5: "pins_ok ?t"
    unfolding pins_ok_def
  proof (intro allI impI)
    fix g assume "g < pool_size ?t"
    then have gl: "g < pool_size s" by simp
    show "0 \<le> pin_count (pages ?t ! g) \<and>
        (pin_count (pages ?t ! g) = 0 \<longrightarrow> g \<in> set (free_list ?t) \<or> g \<in> set (replacer ?t))"
    proof (cases "g = f")
      case True then show ?thesis using pgf pg by simp
    next
      case False
      then show ?thesis using pins[OF gl] pgg[OF False] setr by auto
    qed
  qed
  show ?thesis unfolding bpm_inv_def using c1 c2 c3 c4 c5 by blast
qed

lemma detached_range: "detached f s \<Longrightarrow> f < length (pages s)"
  by (simp add: detached_def frames_in_range_def)

lemma FetchPageImpl_miss:
  assumes "page_table s pid = None" "find_replacement s = Some (f, s1)" "f < length (pages s1)"
  shows "FetchPageImpl s pid =
     (Some f, s1\<lparr>pages := (pages s1)[f := (pages s1 ! f)\<lparr>data := disk_pages (disk s1) pid, page_id := pid, pin_count := 1\<rparr>],
                 page_table := pt_insert pid f (page_table s1),
                 replacer := Pin f (replacer s1),
                 disk := (disk s1)\<lparr>calls := calls (disk s1) @ [CallRead pid f]\<rparr>\<rparr>)"
  using assms by (simp add: FetchPageImpl_def Let_def ReadPage_def upd_page_def ResetMemory_def)

lemma NewPageImpl_Some:
  assumes "find_replacement s = Some (f, s1)" "f < length (pages s1)"
  shows "NewPageImpl s out =
     (Some f, next_page_id (disk s1),
      s1\<lparr>pages := (pages s1)[f := (pages s1 ! f)\<lparr>page_id := next_page_id (disk s1), data := zero_data, pin_count := 1, is_dirty := False\<rparr>],
          page_table := pt_insert (next_page_id (disk s1)) f (page_table s1),
          replacer := Pin f (replacer s1),
          disk := (disk s1)\<lparr>next_page_id := next_page_id (disk s1) + 1,
                            calls := calls (disk s1) @ [CallAllocate (next_page_id (disk s1))]\<rparr>\<rparr>)"
  using assms by (simp add: NewPageImpl_def Let_def AllocatePage_def upd_page_def ResetMemory_def)

lemma FetchPageImpl_hit:
  assumes "page_table s pid = Some f"
  shows "FetchPageImpl s pid =
     (Some f, s\<lparr>replacer := Pin f (replacer s),
                pages := (pages s)[f := (pages s ! f)\<lparr>pin_count := pin_count (pages s ! f) + 1\<rparr>]\<rparr>)"
  using assms by (simp add: FetchPageImpl_def Let_def upd_page_def)

lemma find_replacement_detached:
  assumes inv: "bpm_inv s" and fr: "find_replacement s = Some (f, s1)"
  shows "detached f s1"
proof (cases "free_list s")
  case (Cons g gs)
  then show ?thesis using fr detached_free[OF inv Cons] by (simp add: find_replacement_free)
next
  case Nil
  then have ne: "replacer s \<noteq> []" using fr find_replacement_None[of s] by auto
  note vf = inv_victim_facts[OF inv Nil ne]
  from fr have f: "f = last (replacer s)"
    and s1: "s1 = s\<lparr>replacer := butlast (replacer s),
                pages := (pages s)[f := (pages s ! f)\<lparr>is_dirty := False\<rparr>],
                page_table := (page_table s)(page_id (pages s ! f) := None),
                disk := (if is_dirty (pages s ! f)
                         then WritePage (disk s) (page_id (pages s ! f)) f (data (pages s ! f))
                         else disk s)\<rparr>"
    by (auto simp add: find_replacement_victim[OF Nil ne refl vf(1) vf(2)])
  show ?thesis unfolding s1 by (rule detached_victim[OF inv Nil ne f])
qed

lemma inv_Fetch_miss:
  assumes inv: "bpm_inv s" and pt: "page_table s pid = None" and fr: "find_replacement s = Some (f, s1)"
  shows "bpm_inv (snd (FetchPageImpl s pid))"
proof -
  note det = find_replacement_detached[OF inv fr]
  have cl: "\<not> is_dirty (pages s1 ! f)" using det by (simp add: detached_def)
  show ?thesis
    unfolding FetchPageImpl_miss[OF pt fr detached_range[OF det]] snd_conv
    by (rule inv_install[OF det]) (simp_all add: cl)
qed

lemma inv_New:
  assumes inv: "bpm_inv s"
  shows "bpm_inv (snd (snd (NewPageImpl s out)))"
proof (cases "find_replacement s")
  case None
  then show ?thesis using inv by (simp add: NewPageImpl_def)
next
  case (Some a)
  obtain f s1 where fr: "find_replacement s = Some (f, s1)" using Some by (cases a) simp
  note det = find_replacement_detached[OF inv fr]
  show ?thesis
    unfolding NewPageImpl_Some[OF fr detached_range[OF det]] snd_conv
    by (rule inv_install[OF det]) simp_all
qed

lemma invD_len: "bpm_inv s \<Longrightarrow> length (pages s) = pool_size s"
  and invD_free_lt: "bpm_inv s \<Longrightarrow> g \<in> set (free_list s) \<Longrightarrow> g < pool_size s"
  and invD_rep_lt: "bpm_inv s \<Longrightarrow> g \<in> set (replacer s) \<Longrightarrow> g < pool_size s"
  and invD_pt_lt: "bpm_inv s \<Longrightarrow> page_table s p = Some g \<Longrightarrow> g < pool_size s"
  and invD_tc: "bpm_inv s \<Longrightarrow> page_table s p = Some g \<Longrightarrow> page_id (pages s ! g) = p"
  and invD_free_distinct: "bpm_inv s \<Longrightarrow> distinct (free_list s)"
  and invD_rep_distinct: "bpm_inv s \<Longrightarrow> distinct (replacer s)"
  by (simp_all add: inv_defs)

lemma invD_free:
  "bpm_inv s \<Longrightarrow> g \<in> set (free_list s) \<Longrightarrow>
     page_table s p \<noteq> Some g \<and> \<not> is_dirty (pages s ! g) \<and> pin_count (pages s ! g) = 0"
  by (simp add: inv_defs)

lemma invD_rep:
  "bpm_inv s \<Longrightarrow> g \<in> set (replacer s) \<Longrightarrow>
     pin_count (pages s ! g) = 0 \<and>
     (g \<in> set (free_list s) \<or> page_table s (page_id (pages s ! g)) = Some g)"
  by (simp add: inv_defs)

lemma invD_pins:
  "bpm_inv s \<Longrightarrow> g < pool_size s \<Longrightarrow>
     0 \<le> pin_count (pages s ! g) \<and>
     (pin_count (pages s ! g) = 0 \<longrightarrow> g \<in> set (free_list s) \<or> g \<in> set (replacer s))"
  by (simp add: inv_defs)

lemma set_Pin: "distinct l \<Longrightarrow> set (Pin f l) = set l - {f}"
  by (auto simp: Pin_def)

lemma distinct_Pin: "distinct l \<Longrightarrow> distinct (Pin f l)"
  by (simp add: Pin_def)

lemma inv_Fetch_hit:
  assumes inv: "bpm_inv s" and pt: "page_table s pid = Some f"
  shows "bpm_inv (snd (FetchPageImpl s pid))"
proof -
  let ?t = "s\<lparr>replacer := Pin f (replacer s),
                pages := (pages s)[f := (pages s ! f)\<lparr>pin_count := pin_count (pages s ! f) + 1\<rparr>]\<rparr>"
  have fl: "f < length (pages s)" using invD_pt_lt[OF inv pt] invD_len[OF inv] by simp
  have pgf: "pages ?t ! f = (pages s ! f)\<lparr>pin_count := pin_count (pages s ! f) + 1\<rparr>"
    using fl by simp
  have pgg: "\<And>g. g \<noteq> f \<Longrightarrow> pages ?t ! g = pages s ! g" by simp
  have pid: "\<And>g. page_id (pages ?t ! g) = page_id (pages s ! g)"
    using fl by (simp add: nth_list_update)
  have dty: "\<And>g. is_dirty (pages ?t ! g) = is_dirty (pages s ! g)"
    using fl by (simp add: nth_list_update)
  have setr: "set (replacer ?t) = set (replacer s) - {f}"
    using invD_rep_distinct[OF inv] by (simp add: set_Pin)
  have fnf: "f \<notin> set (free_list s)" using invD_free[OF inv, of f pid] pt by auto
  have c1: "frames_in_range ?t"
    unfolding frames_in_range_def
    using invD_len[OF inv] invD_free_lt[OF inv] invD_rep_lt[OF inv] invD_pt_lt[OF inv] setr
    by auto
  have c2: "table_consistent ?t"
    unfolding table_consistent_def using pid invD_tc[OF inv] by simp
  have c3: "free_ok ?t"
    unfolding free_ok_def
  proof (intro conjI ballI allI)
    show "distinct (free_list ?t)" using invD_free_distinct[OF inv] by simp
  next
    fix g p assume "g \<in> set (free_list ?t)"
    then have gs: "g \<in> set (free_list s)" by simp
    then have gf: "g \<noteq> f" using fnf by auto
    show "page_table ?t p \<noteq> Some g" using invD_free[OF inv gs, of p] by simp
    show "\<not> is_dirty (pages ?t ! g)" using invD_free[OF inv gs] dty by simp
    show "pin_count (pages ?t ! g) = 0" using invD_free[OF inv gs] pgg[OF gf] by simp
  qed
  have c4: "replacer_ok ?t"
    unfolding replacer_ok_def
  proof (intro conjI ballI)
    show "distinct (replacer ?t)" using invD_rep_distinct[OF inv] by (simp add: distinct_Pin)
  next
    fix g assume "g \<in> set (replacer ?t)"
    then have gr: "g \<in> set (replacer s)" and gf: "g \<noteq> f" using setr by auto
    show "pin_count (pages ?t ! g) = 0" using invD_rep[OF inv gr] pgg[OF gf] by simp
    show "g \<in> set (free_list ?t) \<or> page_table ?t (page_id (pages ?t ! g)) = Some g"
      using invD_rep[OF inv gr] pid by simp
  qed
  have c5: "pins_ok ?t"
    unfolding pins_ok_def
  proof (intro allI impI)
    fix g assume "g < pool_size ?t"
    then have gl: "g < pool_size s" by simp
    show "0 \<le> pin_count (pages ?t ! g) \<and>
        (pin_count (pages ?t ! g) = 0 \<longrightarrow> g \<in> set (free_list ?t) \<or> g \<in> set (replacer ?t))"
    proof (cases "g = f")
      case True then show ?thesis using pgf invD_pins[OF inv gl] by simp
    next
      case False
      then show ?thesis using invD_pins[OF inv gl] pgg[OF False] setr by auto
    qed
  qed
  show ?thesis unfolding FetchPageImpl_hit[OF pt] snd_conv bpm_inv_def
    using c1 c2 c3 c4 c5 by blast
qed

lemma inv_Fetch: "bpm_inv s \<Longrightarrow> bpm_inv (snd (FetchPageImpl s pid))"
proof (cases "page_table s pid")
  case (Some f)
  assume "bpm_inv s" then show ?thesis using Some by (rule inv_Fetch_hit)
next
  case None
  assume inv: "bpm_inv s"
  show ?thesis
  proof (cases "find_replacement s")
    case None
    then show ?thesis using inv \<open>page_table s pid = None\<close> by (simp add: FetchPageImpl_def)
  next
    case (Some a)
    obtain f s1 where fr: "find_replacement s = Some (f, s1)" using Some by (cases a) simp
    show ?thesis by (rule inv_Fetch_miss[OF inv \<open>page_table s pid = None\<close> fr])
  qed
qed

lemma UnpinPageImpl_ok:
  assumes "page_table s pid = Some f" "0 < pin_count (pages s ! f)" "f < length (pages s)"
  shows "UnpinPageImpl s pid dirty =
     (True, s\<lparr>pages := (pages s)[f := (pages s ! f)\<lparr>pin_count := pin_count (pages s ! f) - 1, is_dirty := dirty\<rparr>],
             replacer := (if pin_count (pages s ! f) = 1 then Unpin f (replacer s) else replacer s)\<rparr>)"
  using assms by (simp add: UnpinPageImpl_def Let_def upd_page_def)

lemma UnpinPageImpl_fail:
  "page_table s pid = None \<or> (\<exists>f. page_table s pid = Some f \<and> pin_count (pages s ! f) \<le> 0) \<Longrightarrow>
   UnpinPageImpl s pid dirty = (False, s)"
  by (auto simp add: UnpinPageImpl_def)

lemma inv_Unpin_ok:
  assumes inv: "bpm_inv s" and pt: "page_table s pid = Some f" and pin: "0 < pin_count (pages s ! f)"
  shows "bpm_inv (snd (UnpinPageImpl s pid dirty))"
proof -
  let ?r = "if pin_count (pages s ! f) = 1 then Unpin f (replacer s) else replacer s"
  let ?t = "s\<lparr>pages := (pages s)[f := (pages s ! f)\<lparr>pin_count := pin_count (pages s ! f) - 1, is_dirty := dirty\<rparr>],
             replacer := ?r\<rparr>"
  have fl: "f < length (pages s)" using invD_pt_lt[OF inv pt] invD_len[OF inv] by simp
  have fps: "f < pool_size s" using invD_pt_lt[OF inv pt] .
  have pgf: "pages ?t ! f = (pages s ! f)\<lparr>pin_count := pin_count (pages s ! f) - 1, is_dirty := dirty\<rparr>"
    using fl by simp
  have pgg: "\<And>g. g \<noteq> f \<Longrightarrow> pages ?t ! g = pages s ! g" by simp
  have pid: "\<And>g. page_id (pages ?t ! g) = page_id (pages s ! g)"
    using fl by (simp add: nth_list_update)
  have fnf: "f \<notin> set (free_list s)" using invD_free[OF inv, of f pid] pt by auto
  have fnr: "f \<notin> set (replacer s)" using invD_rep[OF inv, of f] pin by auto
  have setr: "set ?r = (if pin_count (pages s ! f) = 1 then insert f (set (replacer s)) else set (replacer s))"
    using fnr by (simp add: Unpin_def)
  have dr: "distinct ?r" using invD_rep_distinct[OF inv] fnr by (simp add: Unpin_def)
  have c1: "frames_in_range ?t"
    unfolding frames_in_range_def
    using invD_len[OF inv] invD_free_lt[OF inv] invD_rep_lt[OF inv] invD_pt_lt[OF inv] fps
    by (auto simp: Unpin_def split: if_splits)
  have c2: "table_consistent ?t"
    unfolding table_consistent_def using pid invD_tc[OF inv] by simp
  have c3: "free_ok ?t"
    unfolding free_ok_def
  proof (intro conjI ballI allI)
    show "distinct (free_list ?t)" using invD_free_distinct[OF inv] by simp
  next
    fix g p assume "g \<in> set (free_list ?t)"
    then have gs: "g \<in> set (free_list s)" by simp
    then have gf: "g \<noteq> f" using fnf by auto
    show "page_table ?t p \<noteq> Some g" using invD_free[OF inv gs, of p] by simp
    show "\<not> is_dirty (pages ?t ! g)" using invD_free[OF inv gs] pgg[OF gf] by simp
    show "pin_count (pages ?t ! g) = 0" using invD_free[OF inv gs] pgg[OF gf] by simp
  qed
  have c4: "replacer_ok ?t"
    unfolding replacer_ok_def
  proof (intro conjI ballI)
    show "distinct (replacer ?t)" using dr by simp
  next
    fix g assume g: "g \<in> set (replacer ?t)"
    show "pin_count (pages ?t ! g) = 0 "
    proof (cases "g = f")
      case True
      then have "pin_count (pages s ! f) = 1" using g fnr setr by (auto split: if_splits)
      then show ?thesis using True pgf by simp
    next
      case False
      then have "g \<in> set (replacer s)" using g setr by (auto split: if_splits)
      then show ?thesis using invD_rep[OF inv] pgg[OF False] by simp
    qed
    show "g \<in> set (free_list ?t) \<or> page_table ?t (page_id (pages ?t ! g)) = Some g"
    proof (cases "g = f")
      case True
      then show ?thesis using pid invD_tc[OF inv pt] pt by simp
    next
      case False
      then have "g \<in> set (replacer s)" using g setr by (auto split: if_splits)
      then show ?thesis using invD_rep[OF inv] pid by simp
    qed
  qed
  have c5: "pins_ok ?t"
    unfolding pins_ok_def
  proof (intro allI impI)
    fix g assume "g < pool_size ?t"
    then have gl: "g < pool_size s" by simp
    show "0 \<le> pin_count (pages ?t ! g) \<and>
        (pin_count (pages ?t ! g) = 0 \<longrightarrow> g \<in> set (free_list ?t) \<or> g \<in> set (replacer ?t))"
    proof (cases "g = f")
      case True then show ?thesis using pgf pin setr by auto
    next
      case False
      then show ?thesis using invD_pins[OF inv gl] pgg[OF False] setr by auto
    qed
  qed
  show ?thesis unfolding UnpinPageImpl_ok[OF pt pin fl] snd_conv bpm_inv_def
    using c1 c2 c3 c4 c5 by blast
qed

lemma inv_Unpin: "bpm_inv s \<Longrightarrow> bpm_inv (snd (UnpinPageImpl s pid dirty))"
proof (cases "page_table s pid")
  case None
  assume "bpm_inv s" then show ?thesis using None by (simp add: UnpinPageImpl_fail)
next
  case (Some f)
  assume inv: "bpm_inv s"
  show ?thesis
  proof (cases "0 < pin_count (pages s ! f)")
    case True
    show ?thesis by (rule inv_Unpin_ok[OF inv Some True])
  next
    case False
    then have "UnpinPageImpl s pid dirty = (False, s)" using Some by (intro UnpinPageImpl_fail) simp
    then show ?thesis using inv by simp
  qed
qed

lemma DeletePageImpl_absent:
  "page_table s pid = None \<Longrightarrow>
   DeletePageImpl s pid = (True, s\<lparr>disk := DeallocatePage (disk s) pid\<rparr>)"
  by (simp add: DeletePageImpl_def)

lemma DeletePageImpl_pinned:
  "page_table s pid = Some f \<Longrightarrow> 0 < pin_count (pages s ! f) \<Longrightarrow>
   DeletePageImpl s pid = (False, s)"
  by (simp add: DeletePageImpl_def)

lemma DeletePageImpl_unpinned:
  assumes "page_table s pid = Some f" "\<not> 0 < pin_count (pages s ! f)" "f < length (pages s)"
  shows "DeletePageImpl s pid =
     (False, s\<lparr>free_list := free_list s @ [f],
              page_table := (page_table s)(page_id (pages s ! f) := None),
              pages := (pages s)[f := (pages s ! f)\<lparr>data := zero_data, page_id := INVALID_PAGE_ID,
                                                      is_dirty := False, pin_count := 0\<rparr>]\<rparr>)"
  using assms by (simp add: DeletePageImpl_def Let_def upd_page_def ResetMemory_def)

lemma inv_Delete_unpinned:
  assumes inv: "bpm_inv s" and pt: "page_table s pid = Some f" and pin: "\<not> 0 < pin_count (pages s ! f)"
  shows "bpm_inv (snd (DeletePageImpl s pid))"
proof -
  let ?pg = "(pages s ! f)\<lparr>data := zero_data, page_id := INVALID_PAGE_ID,
                            is_dirty := False, pin_count := 0\<rparr>"
  let ?t = "s\<lparr>free_list := free_list s @ [f],
              page_table := (page_table s)(page_id (pages s ! f) := None),
              pages := (pages s)[f := ?pg]\<rparr>"
  have fps: "f < pool_size s" using invD_pt_lt[OF inv pt] .
  have fl: "f < length (pages s)" using fps invD_len[OF inv] by simp
  have pf: "page_id (pages s ! f) = pid" using invD_tc[OF inv pt] .
  have pgf: "pages ?t ! f = ?pg" using fl by simp
  have pgg: "\<And>g. g \<noteq> f \<Longrightarrow> pages ?t ! g = pages s ! g" by simp
  have fnf: "f \<notin> set (free_list s)" using invD_free[OF inv, of f pid] pt by auto
  have pte: "\<And>p. page_table ?t p = (if p = pid then None else page_table s p)"
    using pf by simp
  have pt': "\<And>p g. page_table ?t p = Some g \<longleftrightarrow> page_table s p = Some g \<and> g \<noteq> f"
  proof -
    fix p g
    show "page_table ?t p = Some g \<longleftrightarrow> page_table s p = Some g \<and> g \<noteq> f"
    proof (cases "p = pid")
      case True
      then show ?thesis using pte[of p] pt by simp
    next
      case False
      have "page_table s p = Some g \<Longrightarrow> g \<noteq> f"
      proof
        assume "page_table s p = Some g" "g = f"
        then have "page_id (pages s ! f) = p" using invD_tc[OF inv, of p f] by simp
        then show False using pf False by simp
      qed
      then show ?thesis using pte[of p] False by (simp only: if_False) blast
    qed
  qed
  have c1: "frames_in_range ?t"
    unfolding frames_in_range_def
    using invD_len[OF inv] invD_free_lt[OF inv] invD_rep_lt[OF inv] invD_pt_lt[OF inv] fps
    by (auto split: if_splits)
  have c2: "table_consistent ?t"
    unfolding table_consistent_def
  proof (intro allI impI)
    fix p g assume "page_table ?t p = Some g"
    then have a: "page_table s p = Some g" and gf: "g \<noteq> f" using pt' by blast+
    show "page_id (pages ?t ! g) = p" using invD_tc[OF inv a] pgg[OF gf] by simp
  qed
  have c3: "free_ok ?t"
    unfolding free_ok_def
  proof (intro conjI ballI allI)
    show "distinct (free_list ?t)" using invD_free_distinct[OF inv] fnf by simp
  next
    fix g p assume g: "g \<in> set (free_list ?t)"
    show "page_table ?t p \<noteq> Some g"
    proof (cases "g = f")
      case True then show ?thesis using pt' by blast
    next
      case False
      then have "g \<in> set (free_list s)" using g by simp
      then show ?thesis using invD_free[OF inv, of g p] pt' by blast
    qed
  next
    fix g assume g: "g \<in> set (free_list ?t)"
    show "\<not> is_dirty (pages ?t ! g)"
    proof (cases "g = f")
      case True then show ?thesis using pgf by simp
    next
      case False
      then have "g \<in> set (free_list s)" using g by simp
      then show ?thesis using invD_free[OF inv] pgg[OF False] by simp
    qed
    show "pin_count (pages ?t ! g) = 0"
    proof (cases "g = f")
      case True then show ?thesis using pgf by simp
    next
      case False
      then have "g \<in> set (free_list s)" using g by simp
      then show ?thesis using invD_free[OF inv] pgg[OF False] by simp
    qed
  qed
  have c4: "replacer_ok ?t"
    unfolding replacer_ok_def
  proof (intro conjI ballI)
    show "distinct (replacer ?t)" using invD_rep_distinct[OF inv] by simp
  next
    fix g assume "g \<in> set (replacer ?t)"
    then have gr: "g \<in> set (replacer s)" by simp
    show "pin_count (pages ?t ! g) = 0"
    proof (cases "g = f")
      case True then show ?thesis using pgf by simp
    next
      case False then show ?thesis using invD_rep[OF inv gr] pgg[OF False] by simp
    qed
    show "g \<in> set (free_list ?t) \<or> page_table ?t (page_id (pages ?t ! g)) = Some g"
    proof (cases "g = f")
      case True then show ?thesis by simp
    next
      case False
      from invD_rep[OF inv gr]
      have "g \<in> set (free_list s) \<or> page_table s (page_id (pages s ! g)) = Some g" by simp
      then show ?thesis
      proof
        assume "g \<in> set (free_list s)" then show ?thesis by simp
      next
        assume "page_table s (page_id (pages s ! g)) = Some g"
        then have "page_table ?t (page_id (pages s ! g)) = Some g" using pt' False by blast
        then show ?thesis using pgg[OF False] by simp
      qed
    qed
  qed
  have c5: "pins_ok ?t"
    unfolding pins_ok_def
  proof (intro allI impI)
    fix g assume "g < pool_size ?t"
    then have gl: "g < pool_size s" by simp
    show "0 \<le> pin_count (pages ?t ! g) \<and>
        (pin_count (pages ?t ! g) = 0 \<longrightarrow> g \<in> set (free_list ?t) \<or> g \<in> set (replacer ?t))"
    proof (cases "g = f")
      case True then show ?thesis using pgf by simp
    next
      case False
      then show ?thesis using invD_pins[OF inv gl] pgg[OF False] by auto
    qed
  qed
  show ?thesis unfolding DeletePageImpl_unpinned[OF pt pin fl] snd_conv bpm_inv_def
    using c1 c2 c3 c4 c5 by blast
qed

lemma inv_Delete: "bpm_inv s \<Longrightarrow> bpm_inv (snd (DeletePageImpl s pid))"
proof (cases "page_table s pid")
  case None
  assume "bpm_inv s" then show ?thesis using None
    by (simp add: DeletePageImpl_absent inv_defs)
next
  case (Some f)
  assume inv: "bpm_inv s"
  show ?thesis
  proof (cases "0 < pin_count (pages s ! f)")
    case True
    then show ?thesis using inv Some by (simp add: DeletePageImpl_pinned)
  next
    case False
    show ?thesis by (rule inv_Delete_unpinned[OF inv Some False])
  qed
qed

lemma inv_step: "bpm_inv s \<Longrightarrow> bpm_inv (step s op)"
  by (cases op) (simp_all add: inv_Fetch inv_New inv_Unpin inv_Flush inv_Delete inv_FlushAll inv_ClientWrite)

lemma inv_run: "bpm_inv s \<Longrightarrow> bpm_inv (run s ops)"
  unfolding run_def by (induction ops arbitrary: s) (simp_all add: inv_step)

lemma inv_reached: "s = run (BufferPoolManager n d) ops \<Longrightarrow> bpm_inv s"
  by (simp add: inv_run inv_init)

section \<open>Concrete states\<close>

lemma upt_0_2: "[0..<2] = [0, Suc 0]"
  by (simp add: upt_rec)

lemma replicate_2: "replicate 2 x = [x, x]"
  by (simp add: numeral_2_eq_2)

lemmas eval2_defs = eval_defs upt_0_2 replicate_2

lemma demo_unpinned_fields:
  "pool_size demo_unpinned = 2"
  "free_list demo_unpinned = [1]"
  "replacer demo_unpinned = [0]"
  "page_table demo_unpinned 0 = Some 0"
  "pages demo_unpinned ! 0 = \<lparr>data = zero_data, page_id = 0, pin_count = 0, is_dirty = False\<rparr>"
  "calls (disk demo_unpinned) = [CallAllocate 0]"
  by (simp_all add: demo_unpinned_def eval2_defs)

lemma demo_exhausted_fields:
  "pool_size demo_exhausted = 1"
  "free_list demo_exhausted = []"
  "replacer demo_exhausted = []"
  "page_table demo_exhausted 0 = Some 0"
  "page_table demo_exhausted 7 = None"
  "pages demo_exhausted ! 0 = \<lparr>data = zero_data, page_id = 0, pin_count = 1, is_dirty = False\<rparr>"
  "calls (disk demo_exhausted) = [CallAllocate 0]"
  by (simp_all add: demo_exhausted_def eval_defs)

lemma demo_dirty_unpinned_fields:
  "pool_size demo_dirty_unpinned = 1"
  "free_list demo_dirty_unpinned = []"
  "replacer demo_dirty_unpinned = [0]"
  "page_table demo_dirty_unpinned 0 = Some 0"
  "page_table demo_dirty_unpinned 7 = None"
  "pages demo_dirty_unpinned ! 0 = \<lparr>data = zero_data, page_id = 0, pin_count = 0, is_dirty = True\<rparr>"
  "calls (disk demo_dirty_unpinned) = [CallAllocate 0]"
  by (simp_all add: demo_dirty_unpinned_def eval_defs)

lemma FetchPageImpl_None:
  "page_table s pid = None \<Longrightarrow> fst (FetchPageImpl s pid) = None \<longleftrightarrow> find_replacement s = None"
  by (simp add: FetchPageImpl_def Let_def split: option.splits prod.splits)

lemma FlushPageImpl_pool_size: "pool_size (snd (FlushPageImpl s pid)) = pool_size s"
  by (simp add: FlushPageImpl_def Let_def split: option.splits)

lemma find_replacement_pool_size:
  "find_replacement s = Some (f, s1) \<Longrightarrow> pool_size s1 = pool_size s"
  by (auto simp: find_replacement_def Victim_def Let_def FlushPageImpl_pool_size
           split: list.splits if_splits)


section \<open>DeletePage\<close>

text \<open>
  C1. \<^verbatim>\<open>DeletePageImpl\<close> on a resident page with pin count 0 deletes the page and then
  returns \<^verbatim>\<open>false\<close> (line 176), the value it also returns for a pinned page. Evaluated
  on the pool of two frames where page 0 is resident in frame 0 and unpinned: the entry is
  erased and the frame is pushed on the free list, yet the result is \<open>False\<close>.
\<close>

theorem DeletePage_returns_false_on_success:
  "page_table demo_unpinned 0 = Some 0 \<and>
   pin_count (pages demo_unpinned ! 0) = 0 \<and>
   fst (DeletePageImpl demo_unpinned 0) = False \<and>
   page_table (snd (DeletePageImpl demo_unpinned 0)) 0 = None \<and>
   free_list (snd (DeletePageImpl demo_unpinned 0)) = [1, 0]"
  by (simp add: demo_unpinned_def eval2_defs)


text \<open>
  C4. On the same input \<^verbatim>\<open>DeletePageImpl\<close> erases the entry and pushes the frame on the
  free list, but the frame stays in the replacer and the disk manager receives no
  \<^verbatim>\<open>DeallocatePage\<close> call: the record of disk calls is unchanged.
\<close>

theorem DeletePage_leaves_replacer_and_disk:
  "page_table demo_unpinned 0 = Some 0 \<and>
   pin_count (pages demo_unpinned ! 0) = 0 \<and>
   replacer demo_unpinned = [0] \<and>
   replacer (snd (DeletePageImpl demo_unpinned 0)) = [0] \<and>
   free_list (snd (DeletePageImpl demo_unpinned 0)) = [1, 0] \<and>
   calls (disk (snd (DeletePageImpl demo_unpinned 0))) = calls (disk demo_unpinned) \<and>
   CallDeallocate 0 \<notin> set (calls (disk (snd (DeletePageImpl demo_unpinned 0))))"
  by (simp add: demo_unpinned_def eval2_defs)


section \<open>UnpinPage and the dirty flag\<close>

text \<open>
  C2. \<^verbatim>\<open>UnpinPageImpl\<close> assigns its argument to the flag (line 92). Page 0 was unpinned
  dirty and fetched again, so it is resident, pinned once and dirty; \<^verbatim>\<open>UnpinPage(0, false)\<close>
  returns \<^verbatim>\<open>true\<close> and leaves the flag false. The following \<^verbatim>\<open>NewPage\<close> evicts the frame
  without any \<^verbatim>\<open>WritePage\<close>: the disk has received the two \<^verbatim>\<open>AllocatePage\<close> calls only.
\<close>

theorem UnpinPage_clears_dirty:
  "page_table demo_dirty 0 = Some 0 \<and>
   pin_count (pages demo_dirty ! 0) = 1 \<and>
   is_dirty (pages demo_dirty ! 0) \<and>
   fst (UnpinPageImpl demo_dirty 0 False) = True \<and>
   \<not> is_dirty (pages (snd (UnpinPageImpl demo_dirty 0 False)) ! 0) \<and>
   calls (disk (run demo_dirty [UnpinPage 0 False, NewPage])) = [CallAllocate 0, CallAllocate 1]"
  by (simp add: demo_dirty_def eval_defs)


section \<open>Free list, replacer and page table\<close>

text \<open>
  C3, as stated, fails: after \<^verbatim>\<open>NewPage\<close> and \<^verbatim>\<open>UnpinPage(0, false)\<close> frame 0 holds the
  resident page 0 and is in the replacer, so the replacer and the frames of the page table
  are not disjoint. A resident unpinned page is in both by design: a later
  \<^verbatim>\<open>FetchPage\<close> finds it in the page table and calls \<^verbatim>\<open>Pin\<close> to take it out of the
  replacer.
\<close>

theorem replacer_overlaps_page_table:
  "demo_unpinned = run (BufferPoolManager 2 empty_disk) [NewPage, UnpinPage 0 False] \<and>
   (page_table demo_unpinned 0 = Some 0 \<and> replacer demo_unpinned = [0] \<and>
    set (replacer demo_unpinned) \<inter> ran (page_table demo_unpinned) \<noteq> {})"
proof -
  have "0 \<in> ran (page_table demo_unpinned)" using demo_unpinned_fields(4) by (rule ranI)
  then have "page_table demo_unpinned 0 = Some 0 \<and> replacer demo_unpinned = [0] \<and>
    set (replacer demo_unpinned) \<inter> ran (page_table demo_unpinned) \<noteq> {}"
    using demo_unpinned_fields by auto
  with demo_unpinned_def show ?thesis by (rule conjI)
qed

text \<open>
  C3, amended. In every reachable state the free list and the frames of the page table
  are disjoint, and the free list, the replacer and the frames of the page table all lie
  in \<open>[0, pool_size)\<close>.
\<close>

theorem lists_in_range:
  "s = run (BufferPoolManager n d) ops \<Longrightarrow>
   set (free_list s) \<inter> ran (page_table s) = {} \<and>
   set (free_list s) \<union> set (replacer s) \<union> ran (page_table s) \<subseteq> {0..<pool_size s}"
proof -
  assume "s = run (BufferPoolManager n d) ops"
  then have inv: "bpm_inv s" by (rule inv_reached)
  have a: "set (free_list s) \<inter> ran (page_table s) = {}"
    using invD_free[OF inv] by (auto simp: ran_def)
  have b: "set (free_list s) \<subseteq> {0..<pool_size s}" using invD_free_lt[OF inv] by auto
  have c: "set (replacer s) \<subseteq> {0..<pool_size s}" using invD_rep_lt[OF inv] by auto
  have d: "ran (page_table s) \<subseteq> {0..<pool_size s}" using invD_pt_lt[OF inv] by (auto simp: ran_def)
  show ?thesis using a b c d by blast
qed

theorem lists_in_range_witness:
  "demo_unpinned = run (BufferPoolManager 2 empty_disk) [NewPage, UnpinPage 0 False] \<and>
   (set (free_list demo_unpinned) \<inter> ran (page_table demo_unpinned) = {} \<and>
    set (free_list demo_unpinned) \<union> set (replacer demo_unpinned) \<union> ran (page_table demo_unpinned)
      \<subseteq> {0..<pool_size demo_unpinned} \<and>
    free_list demo_unpinned = [1] \<and> replacer demo_unpinned = [0] \<and>
    page_table demo_unpinned 0 = Some 0)"
proof -
  have "set (free_list demo_unpinned) \<inter> ran (page_table demo_unpinned) = {} \<and>
    set (free_list demo_unpinned) \<union> set (replacer demo_unpinned) \<union> ran (page_table demo_unpinned)
      \<subseteq> {0..<pool_size demo_unpinned} \<and>
    free_list demo_unpinned = [1] \<and> replacer demo_unpinned = [0] \<and>
    page_table demo_unpinned 0 = Some 0"
    using lists_in_range [OF demo_unpinned_def] demo_unpinned_fields by simp
  with demo_unpinned_def show ?thesis by (rule conjI)
qed

section \<open>FlushPage\<close>

text \<open>
  C8. \<^verbatim>\<open>FlushPageImpl\<close> returns \<^verbatim>\<open>false\<close> exactly when the page is not in the page table.
  For a resident page, two calls in succession both return \<^verbatim>\<open>true\<close>; after the first the
  frame is clean, the first call writes once exactly if the frame was dirty, the second
  call changes nothing, so that both together perform at most one disk write.
\<close>

theorem FlushPage_twice:
  "s = run (BufferPoolManager n d) ops \<Longrightarrow>
   (fst (FlushPageImpl s pid) = False \<longleftrightarrow> page_table s pid = None) \<and>
   (\<forall>f. page_table s pid = Some f \<longrightarrow>
      fst (FlushPageImpl s pid) = True \<and>
      fst (FlushPageImpl (snd (FlushPageImpl s pid)) pid) = True \<and>
      \<not> is_dirty (pages (snd (FlushPageImpl s pid)) ! f) \<and>
      num_writes (snd (FlushPageImpl s pid)) = num_writes s + (if is_dirty (pages s ! f) then 1 else 0) \<and>
      snd (FlushPageImpl (snd (FlushPageImpl s pid)) pid) = snd (FlushPageImpl s pid) \<and>
      num_writes (snd (FlushPageImpl (snd (FlushPageImpl s pid)) pid)) \<le> num_writes s + 1)"
proof -
  assume "s = run (BufferPoolManager n d) ops"
  then have inv: "bpm_inv s" by (rule inv_reached)
  show ?thesis
  proof (cases "page_table s pid")
    case None
    then show ?thesis by (simp add: FlushPageImpl_None)
  next
    case (Some f)
    have fl: "f < length (pages s)" using invD_pt_lt[OF inv Some] invD_len[OF inv] by simp
    let ?s1 = "snd (FlushPageImpl s pid)"
    have pt1: "page_table ?s1 pid = Some f" by (simp add: FlushPageImpl_Some[OF Some] Some)
    have cl: "\<not> is_dirty (pages ?s1 ! f)" using fl by (simp add: FlushPageImpl_Some[OF Some])
    have b1: "fst (FlushPageImpl s pid) = True" by (simp add: FlushPageImpl_Some[OF Some])
    have s2: "FlushPageImpl ?s1 pid = (True, ?s1)"
      using cl pt1 by (simp add: FlushPageImpl_def[of ?s1])
    have nw: "num_writes ?s1 = num_writes s + (if is_dirty (pages s ! f) then 1 else 0)"
      by (simp add: FlushPageImpl_Some[OF Some] num_writes_def WritePage_def)
    show ?thesis using Some b1 cl s2 nw by simp
  qed
qed

theorem FlushPage_twice_witness:
  "demo_dirty_unpinned = run (BufferPoolManager 1 empty_disk) [NewPage, UnpinPage 0 True] \<and>
   (page_table demo_dirty_unpinned 0 = Some 0 \<and>
    is_dirty (pages demo_dirty_unpinned ! 0) \<and>
    fst (FlushPageImpl demo_dirty_unpinned 0) = True \<and>
    fst (FlushPageImpl (snd (FlushPageImpl demo_dirty_unpinned 0)) 0) = True \<and>
    \<not> is_dirty (pages (snd (FlushPageImpl demo_dirty_unpinned 0)) ! 0) \<and>
    num_writes demo_dirty_unpinned = 0 \<and>
    num_writes (snd (FlushPageImpl demo_dirty_unpinned 0)) = 1 \<and>
    num_writes (snd (FlushPageImpl (snd (FlushPageImpl demo_dirty_unpinned 0)) 0)) = 1)"
proof -
  have n: "num_writes demo_dirty_unpinned = 0"
    by (simp add: num_writes_def demo_dirty_unpinned_fields)
  have "page_table demo_dirty_unpinned 0 = Some 0 \<and>
    is_dirty (pages demo_dirty_unpinned ! 0) \<and>
    fst (FlushPageImpl demo_dirty_unpinned 0) = True \<and>
    fst (FlushPageImpl (snd (FlushPageImpl demo_dirty_unpinned 0)) 0) = True \<and>
    \<not> is_dirty (pages (snd (FlushPageImpl demo_dirty_unpinned 0)) ! 0) \<and>
    num_writes demo_dirty_unpinned = 0 \<and>
    num_writes (snd (FlushPageImpl demo_dirty_unpinned 0)) = 1 \<and>
    num_writes (snd (FlushPageImpl (snd (FlushPageImpl demo_dirty_unpinned 0)) 0)) = 1"
    using FlushPage_twice [OF demo_dirty_unpinned_def, of 0] demo_dirty_unpinned_fields(4,6) n
    by simp
  with demo_dirty_unpinned_def show ?thesis by (rule conjI)
qed

section \<open>Order of eviction\<close>

lemma remove1_rev_distinct: "distinct q \<Longrightarrow> remove1 f (rev q) = rev (filter (\<lambda>g. g \<noteq> f) q)"
  by (simp add: distinct_remove1_removeAll removeAll_filter_not_eq rev_filter) (metis)

lemma step_refines:
  assumes "distinct q"
  shows "fst (replacer_step (rev q) c) = fst (spec_step q c) \<and>
         snd (replacer_step (rev q) c) = rev (snd (spec_step q c)) \<and>
         distinct (snd (spec_step q c))"
proof (cases c)
  case CallVictim
  then show ?thesis using assms
    by (cases q) (simp_all add: Victim_def spec_Victim_def)
next
  case (CallPin f)
  then show ?thesis using assms
    by (simp add: Pin_def spec_Pin_def remove1_rev_distinct)
       (metis (mono_tags, lifting) filter_True)
next
  case (CallUnpin f)
  then show ?thesis using assms by (simp add: Unpin_def spec_Unpin_def)
qed

lemma run_refines:
  "distinct q \<Longrightarrow>
   fst (replacer_run (rev q) cs) = fst (spec_run q cs) \<and>
   snd (replacer_run (rev q) cs) = rev (snd (spec_run q cs)) \<and>
   distinct (snd (spec_run q cs))"
proof (induction cs arbitrary: q)
  case Nil
  then show ?case by simp
next
  case (Cons c cs)
  note st = step_refines[OF Cons.prems, of c]
  obtain out q' where sp: "spec_step q c = (out, q')" by (cases "spec_step q c")
  have rs: "replacer_step (rev q) c = (out, rev q')" using st sp by (cases "replacer_step (rev q) c") simp
  have dq: "distinct q'" using st sp by simp
  show ?case using Cons.IH[OF dq] sp rs by (simp add: split_beta)
qed


text \<open>
  C5. For every sequence of calls on a new replacer, the results of the \<^verbatim>\<open>Victim\<close> calls
  are those of the replacer of the specification, whose queue holds the tracked frames in
  the order of the \<^verbatim>\<open>Unpin\<close> that made them tracked: \<^verbatim>\<open>Unpin\<close> of a tracked frame
  changes nothing, \<^verbatim>\<open>Unpin\<close> of an untracked frame enters it as the most recent, \<^verbatim>\<open>Pin\<close>
  removes it, and \<^verbatim>\<open>Victim\<close> returns the oldest. The list of the source is that queue
  reversed and never holds a frame twice.
\<close>

theorem replacer_is_fifo:
  "fst (replacer_run (new_LRUReplacer n) cs) = fst (spec_run [] cs) \<and>
   snd (replacer_run (new_LRUReplacer n) cs) = rev (snd (spec_run [] cs)) \<and>
   distinct (snd (replacer_run (new_LRUReplacer n) cs))"
  using run_refines[of "[]" cs] by (simp add: new_LRUReplacer_def)

theorem replacer_is_fifo_witness:
  "fst (replacer_run (new_LRUReplacer 3)
          [CallUnpin 1, CallUnpin 2, CallUnpin 3, CallUnpin 1, CallPin 2, CallVictim,
           CallUnpin 2, CallVictim, CallVictim, CallVictim])
     = [Some 1, Some 3, Some 2, None] \<and>
   snd (replacer_run (new_LRUReplacer 3)
          [CallUnpin 1, CallUnpin 2, CallUnpin 3, CallUnpin 1, CallPin 2, CallVictim,
           CallUnpin 2, CallVictim, CallVictim, CallVictim]) = []"
proof -
  have "spec_run []
          [CallUnpin 1, CallUnpin 2, CallUnpin 3, CallUnpin 1, CallPin 2, CallVictim,
           CallUnpin 2, CallVictim, CallVictim, CallVictim]
        = ([Some 1, Some 3, Some 2, None], [])"
    by (simp add: spec_Unpin_def spec_Pin_def spec_Victim_def)
  then show ?thesis
    using replacer_is_fifo [of 3 "[CallUnpin 1, CallUnpin 2, CallUnpin 3, CallUnpin 1, CallPin 2,
           CallVictim, CallUnpin 2, CallVictim, CallVictim, CallVictim]"]
    by simp
qed


section \<open>FetchPage on a miss\<close>

lemma pt_insert_absent: "pt pid = None \<Longrightarrow> pt_insert pid f pt = pt(pid \<mapsto> f)"
  by (simp add: pt_insert_def)

lemma Fetch_miss_free:
  assumes inv: "bpm_inv s" and pt: "page_table s pid = None" and fl: "free_list s = g # gs"
  shows "FetchPageImpl s pid =
     (Some g, s\<lparr>free_list := gs,
                pages := (pages s)[g := \<lparr>data = disk_pages (disk s) pid, page_id = pid,
                                          pin_count = 1, is_dirty = False\<rparr>],
                page_table := (page_table s)(pid \<mapsto> g),
                replacer := Pin g (replacer s),
                disk := (disk s)\<lparr>calls := calls (disk s) @ [CallRead pid g]\<rparr>\<rparr>)"
proof -
  have gin: "g \<in> set (free_list s)" using fl by simp
  have gl: "g < length (pages s)" using invD_free_lt[OF inv gin] invD_len[OF inv] by simp
  have cl: "\<not> is_dirty (pages s ! g)" using invD_free[OF inv gin] by simp
  have pg: "(pages s ! g)\<lparr>data := disk_pages (disk s) pid, page_id := pid, pin_count := 1\<rparr> =
        \<lparr>data = disk_pages (disk s) pid, page_id = pid, pin_count = 1, is_dirty = False\<rparr>"
    using cl by (cases "pages s ! g") simp
  have fr: "find_replacement s = Some (g, s\<lparr>free_list := gs\<rparr>)"
    using fl by (rule find_replacement_free)
  show ?thesis
    using FetchPageImpl_miss[OF pt fr] gl pt pg by (simp add: pt_insert_absent)
qed

lemma Fetch_miss_victim:
  assumes inv: "bpm_inv s" and pt: "page_table s pid = None" and fl: "free_list s = []"
    and ne: "replacer s \<noteq> []" and f: "f = last (replacer s)"
    and d1: "d1 = (if is_dirty (pages s ! f)
                   then WritePage (disk s) (page_id (pages s ! f)) f (data (pages s ! f))
                   else disk s)"
  shows "FetchPageImpl s pid =
     (Some f, s\<lparr>replacer := butlast (replacer s),
                pages := (pages s)[f := \<lparr>data = disk_pages d1 pid, page_id = pid,
                                          pin_count = 1, is_dirty = False\<rparr>],
                page_table := ((page_table s)(page_id (pages s ! f) := None))(pid \<mapsto> f),
                disk := d1\<lparr>calls := calls d1 @ [CallRead pid f]\<rparr>\<rparr>)"
proof -
  note vf = inv_victim_facts[OF inv fl ne, folded f]
  have fr: "find_replacement s =
     Some (f, s\<lparr>replacer := butlast (replacer s),
                pages := (pages s)[f := (pages s ! f)\<lparr>is_dirty := False\<rparr>],
                page_table := (page_table s)(page_id (pages s ! f) := None),
                disk := d1\<rparr>)"
    unfolding d1 by (rule find_replacement_victim[OF fl ne f vf(1) vf(2)])
  have pg: "(pages s ! f)\<lparr>is_dirty := False, data := disk_pages d1 pid, page_id := pid, pin_count := 1\<rparr> =
        \<lparr>data = disk_pages d1 pid, page_id = pid, pin_count = 1, is_dirty = False\<rparr>"
    by (cases "pages s ! f") simp
  have nb: "f \<notin> set (butlast (replacer s))"
    using invD_rep_distinct[OF inv] ne f by (simp add: distinct_last_butlast)
  have pn: "((page_table s)(page_id (pages s ! f) := None)) pid = None" using pt by simp
  show ?thesis
    using FetchPageImpl_miss[OF pt fr] vf(1) nb pg pn
    by (simp add: pt_insert_absent Pin_def)
qed

text \<open>
  C6. In a reachable state, when \<^verbatim>\<open>FetchPageImpl\<close> is called for a page that is not in the
  page table and returns a frame: the frame is the front of the free list if there is one,
  else the victim of the replacer (the back of its list); a dirty victim is written to
  disk under its old page id before the read, and the victim's old page-table entry is
  erased; the frame then holds what the disk stores for the page, has
  \<open>page_id = pid\<close>, \<open>pin_count = 1\<close>, \<open>is_dirty = False\<close>, is mapped to by \<open>pid\<close> in the page
  table, and is neither in the replacer nor on the free list.
\<close>

theorem FetchPage_miss_loads:
  assumes "s = run (BufferPoolManager n d) ops" "page_table s pid = None" "FetchPageImpl s pid = (Some fid, s')"
  shows
   "(free_list s \<noteq> [] \<longrightarrow>
       fid = hd (free_list s) \<and> free_list s' = tl (free_list s) \<and>
       page_table s' = (page_table s)(pid \<mapsto> fid) \<and>
       calls (disk s') = calls (disk s) @ [CallRead pid fid] \<and>
       disk_pages (disk s') = disk_pages (disk s)) \<and>
    (free_list s = [] \<longrightarrow>
       fid = last (replacer s) \<and> free_list s' = [] \<and>
       page_table s (page_id (pages s ! fid)) = Some fid \<and>
       page_table s' (page_id (pages s ! fid)) = None \<and>
       page_table s' = ((page_table s)(page_id (pages s ! fid) := None))(pid \<mapsto> fid) \<and>
       (is_dirty (pages s ! fid) \<longrightarrow>
          calls (disk s') = calls (disk s) @
             [CallWrite (page_id (pages s ! fid)) fid (data (pages s ! fid)), CallRead pid fid] \<and>
          disk_pages (disk s') =
             (disk_pages (disk s))(page_id (pages s ! fid) := data (pages s ! fid))) \<and>
       (\<not> is_dirty (pages s ! fid) \<longrightarrow>
          calls (disk s') = calls (disk s) @ [CallRead pid fid] \<and>
          disk_pages (disk s') = disk_pages (disk s))) \<and>
    fid < pool_size s \<and>
    pages s' ! fid = \<lparr>data = disk_pages (disk s') pid, page_id = pid, pin_count = 1, is_dirty = False\<rparr> \<and>
    page_table s' pid = Some fid \<and>
    fid \<notin> set (replacer s') \<and> fid \<notin> set (free_list s')"
proof -
  have inv: "bpm_inv s" using assms(1) by (rule inv_reached)
  note pt = assms(2)
  show ?thesis
  proof (cases "free_list s")
    case (Cons g gs)
    have gin: "g \<in> set (free_list s)" using Cons by simp
    have gl: "g < pool_size s" using invD_free_lt[OF inv gin] .
    have gl': "g < length (pages s)" using gl invD_len[OF inv] by simp
    have gn: "g \<notin> set gs" using invD_free_distinct[OF inv] Cons by simp
    have gr: "g \<notin> set (Pin g (replacer s))"
      using invD_rep_distinct[OF inv] by (simp add: set_Pin)
    from Fetch_miss_free[OF inv pt Cons]
    have fid: "fid = g"
      and s': "s' = s\<lparr>free_list := gs,
                pages := (pages s)[g := \<lparr>data = disk_pages (disk s) pid, page_id = pid,
                                          pin_count = 1, is_dirty = False\<rparr>],
                page_table := (page_table s)(pid \<mapsto> g),
                replacer := Pin g (replacer s),
                disk := (disk s)\<lparr>calls := calls (disk s) @ [CallRead pid g]\<rparr>\<rparr>"
      unfolding assms(3) by simp_all
    show ?thesis unfolding fid s' using Cons gl gl' gn gr by simp
  next
    case Nil
    have ne: "replacer s \<noteq> []"
      using assms(3) pt Nil FetchPageImpl_None[OF pt] find_replacement_None[of s] by auto
    define f where "f = last (replacer s)"
    define d1 where "d1 = (if is_dirty (pages s ! f)
                   then WritePage (disk s) (page_id (pages s ! f)) f (data (pages s ! f))
                   else disk s)"
    note vf = inv_victim_facts[OF inv Nil ne, folded f_def]
    have fl: "f < pool_size s" using vf(1) invD_len[OF inv] by simp
    have nb: "f \<notin> set (butlast (replacer s))"
      using invD_rep_distinct[OF inv] ne f_def by (simp add: distinct_last_butlast)
    have pne: "page_id (pages s ! f) \<noteq> pid" using vf(2) pt by auto
    from Fetch_miss_victim[OF inv pt Nil ne f_def d1_def]
    have fid: "fid = f"
      and s': "s' = s\<lparr>replacer := butlast (replacer s),
                pages := (pages s)[f := \<lparr>data = disk_pages d1 pid, page_id = pid,
                                          pin_count = 1, is_dirty = False\<rparr>],
                page_table := ((page_table s)(page_id (pages s ! f) := None))(pid \<mapsto> f),
                disk := d1\<lparr>calls := calls d1 @ [CallRead pid f]\<rparr>\<rparr>"
      unfolding assms(3) by simp_all
    have dd: "is_dirty (pages s ! f) \<Longrightarrow>
          calls d1 = calls (disk s) @ [CallWrite (page_id (pages s ! f)) f (data (pages s ! f))] \<and>
          disk_pages d1 = (disk_pages (disk s))(page_id (pages s ! f) := data (pages s ! f))"
      by (simp add: d1_def WritePage_def)
    have dc: "\<not> is_dirty (pages s ! f) \<Longrightarrow> d1 = disk s" by (simp add: d1_def)
    show ?thesis unfolding fid s' using Nil fl vf nb pne dd dc f_def by simp
  qed
qed

theorem FetchPage_miss_loads_witness:
  "demo_dirty_unpinned = run (BufferPoolManager 1 empty_disk) [NewPage, UnpinPage 0 True] \<and>
   (page_table demo_dirty_unpinned 7 = None \<and>
    fst (FetchPageImpl demo_dirty_unpinned 7) = Some 0 \<and>
    calls (disk (snd (FetchPageImpl demo_dirty_unpinned 7))) =
      [CallAllocate 0, CallWrite 0 0 zero_data, CallRead 7 0] \<and>
    page_table (snd (FetchPageImpl demo_dirty_unpinned 7)) 0 = None \<and>
    page_table (snd (FetchPageImpl demo_dirty_unpinned 7)) 7 = Some 0 \<and>
    page_id (pages (snd (FetchPageImpl demo_dirty_unpinned 7)) ! 0) = 7 \<and>
    pin_count (pages (snd (FetchPageImpl demo_dirty_unpinned 7)) ! 0) = 1 \<and>
    \<not> is_dirty (pages (snd (FetchPageImpl demo_dirty_unpinned 7)) ! 0))"
proof -
  have f: "fst (FetchPageImpl demo_dirty_unpinned 7) = Some 0"
    by (simp add: demo_dirty_unpinned_def eval_defs)
  have h: "FetchPageImpl demo_dirty_unpinned 7 = (Some 0, snd (FetchPageImpl demo_dirty_unpinned 7))"
    using f by (cases "FetchPageImpl demo_dirty_unpinned 7") simp
  note t = FetchPage_miss_loads [OF demo_dirty_unpinned_def demo_dirty_unpinned_fields(5) h]
  have "page_table demo_dirty_unpinned 7 = None \<and>
    fst (FetchPageImpl demo_dirty_unpinned 7) = Some 0 \<and>
    calls (disk (snd (FetchPageImpl demo_dirty_unpinned 7))) =
      [CallAllocate 0, CallWrite 0 0 zero_data, CallRead 7 0] \<and>
    page_table (snd (FetchPageImpl demo_dirty_unpinned 7)) 0 = None \<and>
    page_table (snd (FetchPageImpl demo_dirty_unpinned 7)) 7 = Some 0 \<and>
    page_id (pages (snd (FetchPageImpl demo_dirty_unpinned 7)) ! 0) = 7 \<and>
    pin_count (pages (snd (FetchPageImpl demo_dirty_unpinned 7)) ! 0) = 1 \<and>
    \<not> is_dirty (pages (snd (FetchPageImpl demo_dirty_unpinned 7)) ! 0)"
    using t f demo_dirty_unpinned_fields by simp
  with demo_dirty_unpinned_def show ?thesis by (rule conjI)
qed


section \<open>Writes to disk\<close>

lemma write_back_ok_no_writes:
  "calls (disk s') = calls (disk s) @ ws \<Longrightarrow> filter is_write ws = [] \<Longrightarrow> write_back_ok s s' ws"
proof -
  assume a: "calls (disk s') = calls (disk s) @ ws" and b: "filter is_write ws = []"
  have "\<And>pid fid bytes. CallWrite pid fid bytes \<notin> set ws"
  proof
    fix pid fid bytes assume "CallWrite pid fid bytes \<in> set ws"
    then have "CallWrite pid fid bytes \<in> set (filter is_write ws)" by simp
    then show False using b by simp
  qed
  then show ?thesis using a b by (simp add: write_back_ok_def)
qed

lemma write_back_ok_same: "calls (disk s') = calls (disk s) \<Longrightarrow> write_back_ok s s' []"
  by (rule write_back_ok_no_writes) simp_all

lemma write_back_trans:
  assumes a: "write_back_ok s s1 ws1" and b: "write_back_ok s1 s2 ws2"
    and c1: "only_cleaned s s1" and c2: "only_cleaned s1 s2"
  shows "write_back_ok s s2 (ws1 @ ws2) \<and> only_cleaned s s2"
proof -
  have ps: "pool_size s1 = pool_size s" "pool_size s2 = pool_size s"
    using c1 c2 by (simp_all add: only_cleaned_def)
  have r1: "\<And>g. g < pool_size s \<Longrightarrow> pages s1 ! g = pages s ! g \<or>
        (is_dirty (pages s ! g) \<and> pages s1 ! g = (pages s ! g)\<lparr>is_dirty := False\<rparr>)"
    using c1 by (simp add: only_cleaned_def)
  have r2: "\<And>g. g < pool_size s \<Longrightarrow> pages s2 ! g = pages s1 ! g \<or>
        (is_dirty (pages s1 ! g) \<and> pages s2 ! g = (pages s1 ! g)\<lparr>is_dirty := False\<rparr>)"
    using c2 ps by (simp add: only_cleaned_def)
  have oc: "only_cleaned s s2"
    unfolding only_cleaned_def
  proof (intro conjI allI impI)
    show "pool_size s2 = pool_size s" by (rule ps)
  next
    fix g assume g: "g < pool_size s"
    from r1[OF g] r2[OF g]
    show "pages s2 ! g = pages s ! g \<or>
        (is_dirty (pages s ! g) \<and> pages s2 ! g = (pages s ! g)\<lparr>is_dirty := False\<rparr>)"
      by auto
  qed
  have w1: "\<And>pid fid bytes. CallWrite pid fid bytes \<in> set ws1 \<Longrightarrow>
        fid < pool_size s \<and> is_dirty (pages s ! fid) \<and>
        page_id (pages s ! fid) = pid \<and> data (pages s ! fid) = bytes \<and>
        \<not> is_dirty (pages s1 ! fid)"
    using a by (simp add: write_back_ok_def)
  have w2: "\<And>pid fid bytes. CallWrite pid fid bytes \<in> set ws2 \<Longrightarrow>
        fid < pool_size s \<and> is_dirty (pages s1 ! fid) \<and>
        page_id (pages s1 ! fid) = pid \<and> data (pages s1 ! fid) = bytes \<and>
        \<not> is_dirty (pages s2 ! fid)"
    using b ps by (simp add: write_back_ok_def)
  have w2': "\<And>pid fid bytes. CallWrite pid fid bytes \<in> set ws2 \<Longrightarrow>
        pages s1 ! fid = pages s ! fid"
  proof -
    fix pid fid bytes assume "CallWrite pid fid bytes \<in> set ws2"
    from w2[OF this] r1[of fid] show "pages s1 ! fid = pages s ! fid" by auto
  qed
  have disj: "set (filter is_write ws1) \<inter> set (filter is_write ws2) = {}"
  proof (rule ccontr)
    assume "set (filter is_write ws1) \<inter> set (filter is_write ws2) \<noteq> {}"
    then obtain c where c: "c \<in> set ws1" "c \<in> set ws2" "is_write c" by auto
    from c(3) obtain pid fid bytes where "c = CallWrite pid fid bytes" by (cases c) simp_all
    then show False using w1[of pid fid bytes] w2[of pid fid bytes] c by simp
  qed
  have d: "distinct (filter is_write (ws1 @ ws2))"
    using a b disj by (simp add: write_back_ok_def)
  have cl: "calls (disk s2) = calls (disk s) @ ws1 @ ws2"
    using a b by (simp add: write_back_ok_def)
  have all: "\<forall>pid fid bytes. CallWrite pid fid bytes \<in> set (ws1 @ ws2) \<longrightarrow>
        fid < pool_size s \<and> is_dirty (pages s ! fid) \<and>
        page_id (pages s ! fid) = pid \<and> data (pages s ! fid) = bytes \<and>
        \<not> is_dirty (pages s2 ! fid)"
  proof (intro allI impI)
    fix pid fid bytes assume "CallWrite pid fid bytes \<in> set (ws1 @ ws2)"
    then consider "CallWrite pid fid bytes \<in> set ws1" | "CallWrite pid fid bytes \<in> set ws2"
      by auto
    then show "fid < pool_size s \<and> is_dirty (pages s ! fid) \<and>
        page_id (pages s ! fid) = pid \<and> data (pages s ! fid) = bytes \<and>
        \<not> is_dirty (pages s2 ! fid)"
    proof cases
      case 1
      from w1[OF 1] r2[of fid] show ?thesis by auto
    next
      case 2
      from w2[OF 2] w2'[OF 2] show ?thesis by simp
    qed
  qed
  show ?thesis using cl d all oc by (simp add: write_back_ok_def)
qed

lemma only_cleaned_refl: "only_cleaned s s"
  by (simp add: only_cleaned_def)

lemma Flush_write_back:
  assumes inv: "bpm_inv s"
  shows "\<exists>ws. write_back_ok s (snd (FlushPageImpl s pid)) ws \<and> only_cleaned s (snd (FlushPageImpl s pid))"
proof (cases "page_table s pid")
  case None
  then show ?thesis
    using write_back_ok_same[of s s] only_cleaned_refl by (auto simp add: FlushPageImpl_None)
next
  case (Some f)
  have fps: "f < pool_size s" using invD_pt_lt[OF inv Some] .
  have fl: "f < length (pages s)" using fps invD_len[OF inv] by simp
  let ?s1 = "snd (FlushPageImpl s pid)"
  have oc: "only_cleaned s ?s1"
    using fl by (auto simp add: FlushPageImpl_Some[OF Some] only_cleaned_def nth_list_update clear_clean)
  show ?thesis
  proof (cases "is_dirty (pages s ! f)")
    case False
    then have "calls (disk ?s1) = calls (disk s)" by (simp add: FlushPageImpl_Some[OF Some])
    then show ?thesis using oc write_back_ok_same by blast
  next
    case True
    then have "write_back_ok s ?s1 [CallWrite (page_id (pages s ! f)) f (data (pages s ! f))]"
      using fl fps by (simp add: FlushPageImpl_Some[OF Some] write_back_ok_def WritePage_def)
    then show ?thesis using oc by blast
  qed
qed

lemma FlushAll_loop_write_back:
  "bpm_inv s \<Longrightarrow>
   \<exists>ws. write_back_ok s (FlushAll_loop is s) ws \<and> only_cleaned s (FlushAll_loop is s)"
proof (induction "is" arbitrary: s)
  case Nil
  then show ?case using write_back_ok_same[of s s] only_cleaned_refl by auto
next
  case (Cons i "is")
  let ?s1 = "snd (FlushPageImpl s (page_id (pages s ! i)))"
  from Flush_write_back[OF Cons.prems]
  obtain ws1 where a: "write_back_ok s ?s1 ws1" "only_cleaned s ?s1" by blast
  have "bpm_inv ?s1" using Cons.prems by (rule inv_Flush)
  from Cons.IH[OF this]
  obtain ws2 where b: "write_back_ok ?s1 (FlushAll_loop is ?s1) ws2"
      "only_cleaned ?s1 (FlushAll_loop is ?s1)" by blast
  from write_back_trans[OF a(1) b(1) a(2) b(2)] show ?case by auto
qed

lemma Fetch_write_back:
  assumes inv: "bpm_inv s"
  shows "\<exists>ws. write_back_ok s (snd (FetchPageImpl s pid)) ws"
proof (cases "page_table s pid")
  case (Some f)
  show ?thesis
    by (rule exI[of _ "[]"], rule write_back_ok_same) (simp add: FetchPageImpl_hit[OF Some])
next
  case None
  show ?thesis
  proof (cases "free_list s")
    case (Cons g gs)
    show ?thesis
      by (rule exI[of _ "[CallRead pid g]"], rule write_back_ok_no_writes)
         (simp_all add: Fetch_miss_free[OF inv None Cons])
  next
    case Nil
    show ?thesis
    proof (cases "replacer s = []")
      case True
      have "find_replacement s = None" using Nil True by (simp add: find_replacement_None)
      then have "snd (FetchPageImpl s pid) = s" using None by (simp add: FetchPageImpl_def)
      then show ?thesis using write_back_ok_same[of s s] by auto
    next
      case False
      define f where "f = last (replacer s)"
      define d1 where "d1 = (if is_dirty (pages s ! f)
                   then WritePage (disk s) (page_id (pages s ! f)) f (data (pages s ! f))
                   else disk s)"
      note vf = inv_victim_facts[OF inv Nil False, folded f_def]
      have fl: "f < pool_size s" using vf(1) invD_len[OF inv] by simp
      note eq = Fetch_miss_victim[OF inv None Nil False f_def d1_def]
      show ?thesis
      proof (cases "is_dirty (pages s ! f)")
        case True
        have "write_back_ok s (snd (FetchPageImpl s pid))
                [CallWrite (page_id (pages s ! f)) f (data (pages s ! f)), CallRead pid f]"
          unfolding eq snd_conv write_back_ok_def
          using True fl vf(1) by (simp add: d1_def WritePage_def)
        then show ?thesis by blast
      next
        case False
        show ?thesis
          by (rule exI[of _ "[CallRead pid f]"], rule write_back_ok_no_writes)
             (simp_all add: eq d1_def False)
      qed
    qed
  qed
qed

lemma New_write_back:
  assumes inv: "bpm_inv s"
  shows "\<exists>ws. write_back_ok s (snd (snd (NewPageImpl s out))) ws"
proof (cases "free_list s")
  case (Cons g gs)
  have gin: "g \<in> set (free_list s)" using Cons by simp
  have gl: "g < length (pages s)" using invD_free_lt[OF inv gin] invD_len[OF inv] by simp
  have fr: "find_replacement s = Some (g, s\<lparr>free_list := gs\<rparr>)"
    using Cons by (rule find_replacement_free)
  have gl': "g < length (pages (s\<lparr>free_list := gs\<rparr>))" using gl by simp
  show ?thesis
    by (rule exI[of _ "[CallAllocate (next_page_id (disk s))]"], rule write_back_ok_no_writes)
       (simp_all add: NewPageImpl_Some[OF fr gl'])
next
  case Nil
  show ?thesis
  proof (cases "replacer s = []")
    case True
    have "find_replacement s = None" using Nil True by (simp add: find_replacement_None)
    then have "snd (snd (NewPageImpl s out)) = s" by (simp add: NewPageImpl_def)
    then show ?thesis using write_back_ok_same[of s s] by auto
  next
    case False
    define f where "f = last (replacer s)"
    define d1 where "d1 = (if is_dirty (pages s ! f)
                   then WritePage (disk s) (page_id (pages s ! f)) f (data (pages s ! f))
                   else disk s)"
    define s1 where "s1 = s\<lparr>replacer := butlast (replacer s),
                pages := (pages s)[f := (pages s ! f)\<lparr>is_dirty := False\<rparr>],
                page_table := (page_table s)(page_id (pages s ! f) := None),
                disk := d1\<rparr>"
    note vf = inv_victim_facts[OF inv Nil False, folded f_def]
    have fl: "f < pool_size s" using vf(1) invD_len[OF inv] by simp
    have fr: "find_replacement s = Some (f, s1)"
      unfolding s1_def d1_def by (rule find_replacement_victim[OF Nil False f_def vf(1) vf(2)])
    have fl1: "f < length (pages s1)" using vf(1) by (simp add: s1_def)
    note eq = NewPageImpl_Some[OF fr fl1]
    have cs: "calls (disk (snd (snd (NewPageImpl s out)))) = calls d1 @ [CallAllocate (next_page_id d1)]"
      unfolding eq by (simp add: s1_def)
    have cln: "\<not> is_dirty (pages (snd (snd (NewPageImpl s out))) ! f)"
      unfolding eq using fl1 by simp
    show ?thesis
    proof (cases "is_dirty (pages s ! f)")
      case True
      have "write_back_ok s (snd (snd (NewPageImpl s out)))
                [CallWrite (page_id (pages s ! f)) f (data (pages s ! f)),
                 CallAllocate (next_page_id d1)]"
        unfolding write_back_ok_def
        using True fl cs cln by (simp add: d1_def WritePage_def)
      then show ?thesis by blast
    next
      case False
      show ?thesis
        by (rule exI[of _ "[CallAllocate (next_page_id d1)]"], rule write_back_ok_no_writes)
           (simp_all add: cs, simp add: d1_def False)
    qed
  qed
qed

lemma Unpin_calls: "calls (disk (snd (UnpinPageImpl s pid dirty))) = calls (disk s)"
  by (simp add: UnpinPageImpl_def Let_def split: option.splits)

lemma Delete_write_back: "\<exists>ws. write_back_ok s (snd (DeletePageImpl s pid)) ws"
proof (cases "page_table s pid")
  case None
  show ?thesis
    by (rule exI[of _ "[CallDeallocate pid]"], rule write_back_ok_no_writes)
       (simp_all add: DeletePageImpl_absent[OF None] DeallocatePage_def)
next
  case (Some f)
  have "calls (disk (snd (DeletePageImpl s pid))) = calls (disk s)"
    using Some by (simp add: DeletePageImpl_def Let_def)
  then show ?thesis using write_back_ok_same by blast
qed


text \<open>
  C9. For every operation in every reachable state: each \<^verbatim>\<open>WritePage\<close> the operation
  makes passes the buffer of a frame that was dirty when the operation began, with that
  frame's page id; no frame is written twice by the operation; and when the operation
  has completed, the frame's dirty flag is false.
\<close>

theorem write_only_when_dirty:
  "s = run (BufferPoolManager n d) ops \<Longrightarrow>
   \<exists>ws. calls (disk (step s op)) = calls (disk s) @ ws \<and>
        distinct (filter is_write ws) \<and>
        (\<forall>pid fid bytes. CallWrite pid fid bytes \<in> set ws \<longrightarrow>
           fid < pool_size s \<and> is_dirty (pages s ! fid) \<and>
           page_id (pages s ! fid) = pid \<and> data (pages s ! fid) = bytes \<and>
           \<not> is_dirty (pages (step s op) ! fid))"
proof -
  assume "s = run (BufferPoolManager n d) ops"
  then have inv: "bpm_inv s" by (rule inv_reached)
  have "\<exists>ws. write_back_ok s (step s op) ws"
  proof (cases op)
    case (FetchPage pid)
    then show ?thesis using Fetch_write_back[OF inv] by simp
  next
    case NewPage
    then show ?thesis using New_write_back[OF inv] by simp
  next
    case (UnpinPage pid dirty)
    then show ?thesis using write_back_ok_same[OF Unpin_calls] by auto
  next
    case (FlushPage pid)
    then show ?thesis using Flush_write_back[OF inv] by auto
  next
    case (DeletePage pid)
    then show ?thesis using Delete_write_back by simp
  next
    case FlushAllPages
    then show ?thesis using FlushAll_loop_write_back[OF inv] by (auto simp: FlushAllPagesImpl_def)
  next
    case (ClientWrite fid bytes)
    have "calls (disk (step s op)) = calls (disk s)" using ClientWrite by simp
    then show ?thesis using write_back_ok_same by blast
  qed
  then show ?thesis unfolding write_back_ok_def .
qed

theorem write_only_when_dirty_witness:
  "demo_dirty_unpinned = run (BufferPoolManager 1 empty_disk) [NewPage, UnpinPage 0 True] \<and>
   (calls (disk (step demo_dirty_unpinned NewPage)) =
      calls (disk demo_dirty_unpinned) @ [CallWrite 0 0 zero_data, CallAllocate 1] \<and>
    is_dirty (pages demo_dirty_unpinned ! 0) \<and>
    \<not> is_dirty (pages (step demo_dirty_unpinned NewPage) ! 0))"
proof -
  from write_only_when_dirty [OF demo_dirty_unpinned_def, of NewPage]
  obtain ws where w: "calls (disk (step demo_dirty_unpinned NewPage)) = calls (disk demo_dirty_unpinned) @ ws"
    and a: "\<forall>pid fid bytes. CallWrite pid fid bytes \<in> set ws \<longrightarrow>
           fid < pool_size demo_dirty_unpinned \<and> is_dirty (pages demo_dirty_unpinned ! fid) \<and>
           page_id (pages demo_dirty_unpinned ! fid) = pid \<and>
           data (pages demo_dirty_unpinned ! fid) = bytes \<and>
           \<not> is_dirty (pages (step demo_dirty_unpinned NewPage) ! fid)"
    by blast
  have c: "calls (disk (step demo_dirty_unpinned NewPage)) =
      [CallAllocate 0, CallWrite 0 0 zero_data, CallAllocate 1]"
    by (simp add: demo_dirty_unpinned_def eval_defs)
  have ws: "ws = [CallWrite 0 0 zero_data, CallAllocate 1]"
    using w c demo_dirty_unpinned_fields(7) by simp
  have "CallWrite 0 0 zero_data \<in> set ws" using ws by simp
  with a have "is_dirty (pages demo_dirty_unpinned ! 0) \<and>
      \<not> is_dirty (pages (step demo_dirty_unpinned NewPage) ! 0)" by blast
  then have "calls (disk (step demo_dirty_unpinned NewPage)) =
      calls (disk demo_dirty_unpinned) @ [CallWrite 0 0 zero_data, CallAllocate 1] \<and>
    is_dirty (pages demo_dirty_unpinned ! 0) \<and>
    \<not> is_dirty (pages (step demo_dirty_unpinned NewPage) ! 0)"
    using w ws by simp
  with demo_dirty_unpinned_def show ?thesis by (rule conjI)
qed

section \<open>Pool exhaustion\<close>

text \<open>
  C7. For a page that is not in the page table, \<^verbatim>\<open>FetchPageImpl\<close> returns \<^verbatim>\<open>nullptr\<close>
  exactly when the free list is empty and the replacer has no victim, and so does
  \<^verbatim>\<open>NewPageImpl\<close>; in a reachable state this is exactly the case that every frame is
  pinned. In every other case both return a frame of the pool.
\<close>

theorem null_iff_exhausted:
  assumes "s = run (BufferPoolManager n d) ops" "page_table s pid = None"
  shows "(fst (FetchPageImpl s pid) = None \<longleftrightarrow> free_list s = [] \<and> replacer s = []) \<and>
         (fst (NewPageImpl s out) = None \<longleftrightarrow> free_list s = [] \<and> replacer s = []) \<and>
         (free_list s = [] \<and> replacer s = [] \<longleftrightarrow> (\<forall>f < pool_size s. 0 < pin_count (pages s ! f))) \<and>
         (\<not> (free_list s = [] \<and> replacer s = []) \<longrightarrow>
            (\<exists>f < pool_size s. fst (FetchPageImpl s pid) = Some f) \<and>
            (\<exists>f < pool_size s. fst (NewPageImpl s out) = Some f))"
proof -
  have inv: "bpm_inv s" using assms(1) by (rule inv_reached)
  have a: "fst (FetchPageImpl s pid) = None \<longleftrightarrow> free_list s = [] \<and> replacer s = []"
    using assms(2) by (simp add: FetchPageImpl_None find_replacement_None)
  have b: "fst (NewPageImpl s out) = None \<longleftrightarrow> free_list s = [] \<and> replacer s = []"
    by (simp add: NewPageImpl_None find_replacement_None)
  have c: "free_list s = [] \<and> replacer s = [] \<longleftrightarrow> (\<forall>f < pool_size s. 0 < pin_count (pages s ! f))"
  proof
    assume e: "free_list s = [] \<and> replacer s = []"
    show "\<forall>f < pool_size s. 0 < pin_count (pages s ! f)"
    proof (intro allI impI)
      fix f assume "f < pool_size s"
      from invD_pins[OF inv this] e show "0 < pin_count (pages s ! f)" by auto
    qed
  next
    assume p: "\<forall>f < pool_size s. 0 < pin_count (pages s ! f)"
    have "free_list s = []"
    proof (cases "free_list s")
      case (Cons g gs)
      then have g: "g \<in> set (free_list s)" by simp
      from invD_free[OF inv g] invD_free_lt[OF inv g] p show ?thesis by auto
    qed simp
    moreover have "replacer s = []"
    proof (cases "replacer s")
      case (Cons g gs)
      then have g: "g \<in> set (replacer s)" by simp
      from invD_rep[OF inv g] invD_rep_lt[OF inv g] p show ?thesis by auto
    qed simp
    ultimately show "free_list s = [] \<and> replacer s = []" by simp
  qed
  have d: "\<not> (free_list s = [] \<and> replacer s = []) \<longrightarrow>
            (\<exists>f < pool_size s. fst (FetchPageImpl s pid) = Some f) \<and>
            (\<exists>f < pool_size s. fst (NewPageImpl s out) = Some f)"
  proof
    assume n: "\<not> (free_list s = [] \<and> replacer s = [])"
    then obtain f s1 where fr: "find_replacement s = Some (f, s1)"
      using find_replacement_None[of s] by (cases "find_replacement s") auto
    note det = find_replacement_detached[OF inv fr]
    have fl: "f < pool_size s1" using det by (simp add: detached_def)
    have ps: "pool_size s1 = pool_size s"
      using fr by (rule find_replacement_pool_size)
    have "fst (FetchPageImpl s pid) = Some f"
      by (simp add: FetchPageImpl_miss[OF assms(2) fr detached_range[OF det]])
    moreover have "fst (NewPageImpl s out) = Some f"
      by (simp add: NewPageImpl_Some[OF fr detached_range[OF det]])
    ultimately show "(\<exists>f < pool_size s. fst (FetchPageImpl s pid) = Some f) \<and>
            (\<exists>f < pool_size s. fst (NewPageImpl s out) = Some f)"
      using fl ps by auto
  qed
  show ?thesis using a b c d by blast
qed

theorem null_iff_exhausted_witness:
  "demo_exhausted = run (BufferPoolManager 1 empty_disk) [NewPage] \<and>
   (page_table demo_exhausted 7 = None \<and>
    fst (FetchPageImpl demo_exhausted 7) = None \<and>
    fst (NewPageImpl demo_exhausted 0) = None \<and>
    free_list demo_exhausted = [] \<and> replacer demo_exhausted = [] \<and>
    pool_size demo_exhausted = 1 \<and> 0 < pin_count (pages demo_exhausted ! 0))"
proof -
  have "page_table demo_exhausted 7 = None \<and>
    fst (FetchPageImpl demo_exhausted 7) = None \<and>
    fst (NewPageImpl demo_exhausted 0) = None \<and>
    free_list demo_exhausted = [] \<and> replacer demo_exhausted = [] \<and>
    pool_size demo_exhausted = 1 \<and> 0 < pin_count (pages demo_exhausted ! 0)"
    using null_iff_exhausted [OF demo_exhausted_def demo_exhausted_fields(5), of 0]
      demo_exhausted_fields(1,2,3,5)
    by simp
  with demo_exhausted_def show ?thesis by (rule conjI)
qed

section \<open>NewPage on an exhausted pool\<close>

text \<open>
  C10. Whenever \<^verbatim>\<open>NewPageImpl\<close> returns \<^verbatim>\<open>nullptr\<close>, the out parameter keeps the value it
  had and the manager state is the state before the call: page table, free list, frames
  and replacer are unchanged, and the disk manager has received no call (in particular
  no \<^verbatim>\<open>AllocatePage\<close>, so \<open>next_page_id\<close> and the call record are as before).
\<close>

theorem NewPage_null_atomic:
  "fst (NewPageImpl s out) = None \<Longrightarrow>
   NewPageImpl s out = (None, out, s) \<and>
   fst (snd (NewPageImpl s out)) = out \<and>
   page_table (snd (snd (NewPageImpl s out))) = page_table s \<and>
   free_list (snd (snd (NewPageImpl s out))) = free_list s \<and>
   pages (snd (snd (NewPageImpl s out))) = pages s \<and>
   replacer (snd (snd (NewPageImpl s out))) = replacer s \<and>
   calls (disk (snd (snd (NewPageImpl s out)))) = calls (disk s) \<and>
   next_page_id (disk (snd (snd (NewPageImpl s out)))) = next_page_id (disk s)"
  by (simp add: NewPageImpl_def Let_def split: option.splits prod.splits)

theorem NewPage_null_atomic_witness:
  "fst (NewPageImpl (run (BufferPoolManager 1 empty_disk) [NewPage]) 42) = None \<and>
   fst (snd (NewPageImpl (run (BufferPoolManager 1 empty_disk) [NewPage]) 42)) = 42 \<and>
   calls (disk (snd (snd (NewPageImpl (run (BufferPoolManager 1 empty_disk) [NewPage]) 42))))
     = [CallAllocate 0]"
proof -
  have h: "fst (NewPageImpl (run (BufferPoolManager 1 empty_disk) [NewPage]) 42) = None"
    by (simp add: eval_defs)
  have c: "calls (disk (run (BufferPoolManager 1 empty_disk) [NewPage])) = [CallAllocate 0]"
    by (simp add: eval_defs)
  from NewPage_null_atomic [OF h] have
    "fst (snd (NewPageImpl (run (BufferPoolManager 1 empty_disk) [NewPage]) 42)) = 42"
    "calls (disk (snd (snd (NewPageImpl (run (BufferPoolManager 1 empty_disk) [NewPage]) 42))))
      = calls (disk (run (BufferPoolManager 1 empty_disk) [NewPage]))"
    by blast+
  then show ?thesis using h c by (simp only:) 
qed

end
